theory Spec2Isabelle
  imports Main "HOL-Library.Word" "HOL-Library.Sublist"
begin

unbundle bit_operations_syntax

section \<open>Data model\<close>

text \<open>
  Go strings and byte slices are byte sequences: a \<open>string\<close> here is a list of 8-bit
  characters, a key or a digest is a list of bytes. \<open>PublicKey\<close> and \<open>Hash256\<close> are
  \<open>[32]byte\<close> in the source; the length is a well-formedness condition here.
  A Go slice that is nil and one that is empty are both the empty list.
\<close>

type_synonym byte = "8 word"
type_synonym PublicKey = "byte list"
type_synonym Hash256 = "byte list"

text \<open>
  \<open>SpendPolicy\<close> is a struct around an interface value; the four policy types implement
  the interface. \<open>NilPolicy\<close> is the zero value \<open>SpendPolicy{}\<close>, whose \<open>Type\<close> is nil.
\<close>

datatype SpendPolicy =
    NilPolicy
  | PolicyTypeAbove "64 word"
  | PolicyTypePublicKey PublicKey
  | PolicyTypeThreshold "8 word" "SpendPolicy list"
  | PolicyTypeUnlockConditions "64 word" "PublicKey list" "8 word"

definition PolicyAbove :: "64 word \<Rightarrow> SpendPolicy" where
  "PolicyAbove height = PolicyTypeAbove height"

definition PolicyPublicKey :: "PublicKey \<Rightarrow> SpendPolicy" where
  "PolicyPublicKey pk = PolicyTypePublicKey pk"

definition PolicyThreshold :: "8 word \<Rightarrow> SpendPolicy list \<Rightarrow> SpendPolicy" where
  "PolicyThreshold n ps = PolicyTypeThreshold n ps"

definition AnyoneCanSpend :: SpendPolicy where
  "AnyoneCanSpend = PolicyThreshold 0 []"

datatype error =
    ErrUnexpectedEOF
  | ErrExpected char char
  | ErrSyntax
  | ErrRange
  | ErrInvalidPubkeyLength nat
  | InvalidByteError char
  | ErrLength
  | ErrUnrecognizedPolicyType string
  | ErrTrailingBytes string

section \<open>Library functions of Go used by the codec\<close>

subsection \<open>strconv\<close>

definition digitChar :: "nat \<Rightarrow> char" where
  "digitChar d = char_of (48 + d)"

definition isDigit :: "char \<Rightarrow> bool" where
  "isDigit c = (48 \<le> (of_char c :: nat) \<and> (of_char c :: nat) \<le> 57)"

definition digitVal :: "char \<Rightarrow> nat" where
  "digitVal c = of_char c - 48"

text \<open>\<open>strconv.FormatUint(u, 10)\<close>: the decimal digits of \<open>u\<close>, no leading zero.\<close>

function FormatUint :: "nat \<Rightarrow> string" where
  "FormatUint n = (if n < 10 then [digitChar n] else FormatUint (n div 10) @ [digitChar (n mod 10)])"
  by pat_completeness auto
termination
  by (relation "measure id") auto

declare FormatUint.simps [simp del]

text \<open>
  \<open>strconv.ParseUint(s, 10, bitSize)\<close>: the digits are read left to right; a byte that
  is no digit is a syntax error (value 0), a value above \<open>2^bitSize - 1\<close> is a range
  error (value \<open>2^bitSize - 1\<close>); whichever comes first is reported. The empty string
  is a syntax error.
\<close>

fun parseUintLoop :: "nat \<Rightarrow> nat \<Rightarrow> string \<Rightarrow> nat \<times> error option" where
  "parseUintLoop maxVal n [] = (n, None)"
| "parseUintLoop maxVal n (c # cs) =
     (if isDigit c then
        (if maxVal < n * 10 + digitVal c then (maxVal, Some ErrRange)
         else parseUintLoop maxVal (n * 10 + digitVal c) cs)
      else (0, Some ErrSyntax))"

definition ParseUint :: "string \<Rightarrow> nat \<Rightarrow> nat \<times> error option" where
  "ParseUint t bitSize =
     (if t = [] then (0, Some ErrSyntax) else parseUintLoop (2 ^ bitSize - 1) 0 t)"

subsection \<open>encoding/hex\<close>

definition hextable :: string where
  "hextable = ''0123456789abcdef''"

definition EncodeToString :: "byte list \<Rightarrow> string" where
  "EncodeToString bs =
     concat (map (\<lambda>b. [hextable ! unat (drop_bit 4 b), hextable ! unat (b AND 0x0f)]) bs)"

definition fromHexChar :: "char \<Rightarrow> byte option" where
  "fromHexChar c =
     (let n = (of_char c :: nat) in
      if 48 \<le> n \<and> n \<le> 57 then Some (of_nat (n - 48))
      else if 97 \<le> n \<and> n \<le> 102 then Some (of_nat (n - 97 + 10))
      else if 65 \<le> n \<and> n \<le> 70 then Some (of_nat (n - 65 + 10))
      else None)"

text \<open>
  \<open>hex.Decode(dst, src)\<close> writes the decoded bytes into \<open>dst\<close> as it goes and stops at
  the first invalid character: the bytes decoded before it stay in \<open>dst\<close>.
\<close>

fun hexDecode :: "byte list \<Rightarrow> nat \<Rightarrow> string \<Rightarrow> byte list \<times> error option" where
  "hexDecode dst i [] = (dst, None)"
| "hexDecode dst i [p] =
     (case fromHexChar p of None \<Rightarrow> (dst, Some (InvalidByteError p))
      | Some a \<Rightarrow> (dst, Some ErrLength))"
| "hexDecode dst i (p # q # rest) =
     (case fromHexChar p of None \<Rightarrow> (dst, Some (InvalidByteError p))
      | Some a \<Rightarrow>
         (case fromHexChar q of None \<Rightarrow> (dst, Some (InvalidByteError q))
          | Some b \<Rightarrow> hexDecode (dst[i := push_bit 4 a OR b]) (Suc i) rest))"

subsection \<open>strings and bytes\<close>

text \<open>
  The UTF-8 encodings of the code points for which \<open>unicode.IsSpace\<close> holds:
  U+0009..U+000D, U+0020, U+0085, U+00A0, U+1680, U+2000..U+200A, U+2028, U+2029,
  U+202F, U+205F, U+3000.
\<close>

definition spaceRunes :: "string list" where
  "spaceRunes =
     [[CHR 0x09], [CHR 0x0A], [CHR 0x0B], [CHR 0x0C], [CHR 0x0D], [CHR 0x20],
      [CHR 0xC2, CHR 0x85], [CHR 0xC2, CHR 0xA0],
      [CHR 0xE1, CHR 0x9A, CHR 0x80],
      [CHR 0xE2, CHR 0x80, CHR 0x80], [CHR 0xE2, CHR 0x80, CHR 0x81],
      [CHR 0xE2, CHR 0x80, CHR 0x82], [CHR 0xE2, CHR 0x80, CHR 0x83],
      [CHR 0xE2, CHR 0x80, CHR 0x84], [CHR 0xE2, CHR 0x80, CHR 0x85],
      [CHR 0xE2, CHR 0x80, CHR 0x86], [CHR 0xE2, CHR 0x80, CHR 0x87],
      [CHR 0xE2, CHR 0x80, CHR 0x88], [CHR 0xE2, CHR 0x80, CHR 0x89],
      [CHR 0xE2, CHR 0x80, CHR 0x8A],
      [CHR 0xE2, CHR 0x80, CHR 0xA8], [CHR 0xE2, CHR 0x80, CHR 0xA9],
      [CHR 0xE2, CHR 0x80, CHR 0xAF],
      [CHR 0xE2, CHR 0x81, CHR 0x9F],
      [CHR 0xE3, CHR 0x80, CHR 0x80]]"

text \<open>
  Removing leading runes: as long as the string starts with one of the given byte
  sequences, that sequence is dropped.
\<close>

function stripRunes :: "string list \<Rightarrow> string \<Rightarrow> string" where
  "stripRunes ws s =
     (case List.find (\<lambda>w. w \<noteq> [] \<and> prefix w s) ws of
        None \<Rightarrow> s
      | Some w \<Rightarrow> stripRunes ws (drop (length w) s))"
  by pat_completeness auto
termination
proof (relation "measure (\<lambda>(ws, s). length s)")
  show "wf (measure (\<lambda>(ws, s). length s))" by simp
next
  fix ws :: "string list" and s w :: string
  assume "List.find (\<lambda>w. w \<noteq> [] \<and> prefix w s) ws = Some w"
  then have "w \<noteq> []" and "prefix w s"
    by (auto simp: find_Some_iff)
  then have "s \<noteq> []" by auto
  with \<open>w \<noteq> []\<close> show "((ws, drop (length w) s), (ws, s)) \<in> measure (\<lambda>(ws, s). length s)"
    by simp
qed

declare stripRunes.simps [simp del]

text \<open>
  \<open>strings.TrimSpace\<close>: leading white space is removed, then trailing white space. The
  last rune of a string is white space exactly when the string ends with one of the
  encodings above.
\<close>

definition TrimSpace :: "string \<Rightarrow> string" where
  "TrimSpace s = rev (stripRunes (map rev spaceRunes) (rev (stripRunes spaceRunes s)))"

text \<open>
  \<open>strings.IndexAny(s, chars)\<close> for ASCII \<open>chars\<close>: the index of the first byte of \<open>s\<close>
  that is in \<open>chars\<close>; \<open>None\<close> is Go's -1.
\<close>

fun IndexAny :: "string \<Rightarrow> string \<Rightarrow> nat option" where
  "IndexAny [] chars = None"
| "IndexAny (c # cs) chars =
     (if c \<in> set chars then Some 0 else map_option Suc (IndexAny cs chars))"

text \<open>
  \<open>bytes.Trim(b, cutset)\<close> for an ASCII \<open>cutset\<close>: every leading and every trailing byte
  that is in \<open>cutset\<close> is removed.
\<close>

definition bytesTrim :: "string \<Rightarrow> string \<Rightarrow> string" where
  "bytesTrim b cutset =
     rev (dropWhile (\<lambda>c. c \<in> set cutset) (rev (dropWhile (\<lambda>c. c \<in> set cutset) b)))"

section \<open>Textual codec\<close>

subsection \<open>String\<close>

text \<open>The writer's loop over a list: a comma before every element but the first.\<close>

fun writeList :: "string list \<Rightarrow> string" where
  "writeList [] = []"
| "writeList [x] = x"
| "writeList (x # y # ys) = x @ CHR '','' # writeList (y # ys)"

fun String :: "SpendPolicy \<Rightarrow> string" where
  "String NilPolicy = []"
| "String (PolicyTypeAbove h) = ''above('' @ FormatUint (unat h) @ '')''"
| "String (PolicyTypePublicKey pk) = ''pk('' @ EncodeToString pk @ '')''"
| "String (PolicyTypeThreshold n ps) =
     ''thresh('' @ FormatUint (unat n) @ '',['' @ writeList (map String ps) @ ''])''"
| "String (PolicyTypeUnlockConditions timelock pks sigs) =
     ''uc('' @ FormatUint (unat timelock) @ '',['' @ writeList (map EncodeToString pks)
       @ ''],'' @ FormatUint (unat sigs) @ '')''"

subsection \<open>ParseSpendPolicy\<close>

text \<open>
  The parser's two variables, captured by its closures: the rest of the input and the
  sticky error.
\<close>

record pstate =
  str :: string
  err :: "error option"

definition nextToken :: "pstate \<Rightarrow> string \<times> pstate" where
  "nextToken st =
     (let s1 = TrimSpace (str st) in
      case IndexAny s1 ''(),[]'' of
        None \<Rightarrow> ([], st\<lparr>str := s1\<rparr>)
      | Some i \<Rightarrow>
          if err st = None then (take i s1, st\<lparr>str := drop i s1\<rparr>)
          else ([], st\<lparr>str := s1\<rparr>))"

definition consume :: "char \<Rightarrow> pstate \<Rightarrow> pstate" where
  "consume b st =
     (if err st = None then
        (let s1 = TrimSpace (str st) in
         if s1 = [] then st\<lparr>str := s1, err := Some ErrUnexpectedEOF\<rparr>
         else if hd s1 = b then st\<lparr>str := tl s1\<rparr>
         else st\<lparr>str := s1, err := Some (ErrExpected b (hd s1))\<rparr>)
      else st)"

definition peek :: "pstate \<Rightarrow> char" where
  "peek st = (if err st = None \<and> str st \<noteq> [] then hd (str st) else CHR 0x00)"

definition parseInt :: "nat \<Rightarrow> pstate \<Rightarrow> 64 word \<times> pstate" where
  "parseInt bitSize st =
     (case nextToken st of (t, st1) \<Rightarrow>
        if err st1 = None then
          (case ParseUint t bitSize of (u, e) \<Rightarrow> (of_nat u, st1\<lparr>err := e\<rparr>))
        else (0, st1))"

definition parsePubkey :: "pstate \<Rightarrow> PublicKey \<times> pstate" where
  "parsePubkey st =
     (case nextToken st of (t, st1) \<Rightarrow>
        if err st1 = None then
          (if length t = 64 then
             (case hexDecode (replicate 32 0) 0 t of (pk, e) \<Rightarrow> (pk, st1\<lparr>err := e\<rparr>))
           else (replicate 32 0, st1\<lparr>err := Some (ErrInvalidPubkeyLength (length t))\<rparr>))
        else (replicate 32 0, st1))"

definition msr :: "pstate \<Rightarrow> nat" where
  "msr st = (if err st = None then Suc (length (str st)) else 0)"

lemma length_stripRunes: "length (stripRunes ws s) \<le> length s"
proof (induction ws s rule: stripRunes.induct)
  case (1 ws s)
  show ?case
  proof (cases "List.find (\<lambda>w. w \<noteq> [] \<and> prefix w s) ws")
    case None
    then show ?thesis by (subst stripRunes.simps) simp
  next
    case (Some w)
    with 1 have "length (stripRunes ws (drop (length w) s)) \<le> length (drop (length w) s)"
      by simp
    with Some show ?thesis by (subst stripRunes.simps) simp
  qed
qed

lemma length_TrimSpace: "length (TrimSpace s) \<le> length s"
proof -
  have "length (TrimSpace s) \<le> length (rev (stripRunes spaceRunes s))"
    unfolding TrimSpace_def using length_stripRunes[of "map rev spaceRunes" "rev (stripRunes spaceRunes s)"] by simp
  also have "\<dots> \<le> length s" using length_stripRunes[of spaceRunes s] by simp
  finally show ?thesis .
qed

lemma IndexAny_le: "IndexAny s cs = Some i \<Longrightarrow> i < length s"
  by (induction s arbitrary: i) (auto split: if_splits)

lemma nextToken_err: "nextToken st = (t, st1) \<Longrightarrow> err st1 = err st"
  by (auto simp add: nextToken_def Let_def split: option.splits if_splits)

lemma nextToken_len: "nextToken st = (t, st1) \<Longrightarrow> length (str st1) \<le> length (str st)"
  using length_TrimSpace[of "str st"]
  by (auto simp add: nextToken_def Let_def split: option.splits if_splits)

lemma nextToken_msr: "nextToken st = (t, st1) \<Longrightarrow> msr st1 \<le> msr st"
  using nextToken_len[of st t st1] nextToken_err[of st t st1] by (simp add: msr_def)

lemma nextToken_tok: "nextToken st = (t, st1) \<Longrightarrow> t \<noteq> [] \<Longrightarrow> err st = None"
  by (auto simp add: nextToken_def Let_def split: option.splits if_splits)

lemma consume_msr: "msr (consume b st) \<le> msr st"
  using length_TrimSpace[of "str st"]
  by (auto simp add: consume_def msr_def Let_def)

lemma consume_msr_less: "err st = None \<Longrightarrow> msr (consume b st) < msr st"
  using length_TrimSpace[of "str st"]
  by (cases "TrimSpace (str st)") (auto simp add: consume_def msr_def Let_def)

lemma parseInt_msr: "parseInt k st = (u, st1) \<Longrightarrow> msr st1 \<le> msr st"
  by (auto simp add: parseInt_def msr_def split: prod.splits if_splits dest: nextToken_len nextToken_err)

lemma parsePubkey_msr: "parsePubkey st = (pk, st1) \<Longrightarrow> msr st1 \<le> msr st"
  by (auto simp add: parsePubkey_def msr_def split: prod.splits if_splits dest: nextToken_len nextToken_err)

lemma parsePubkey_progress:
  assumes "err st = None" "parsePubkey st = (pk, st1)"
  shows "msr st1 < msr st"
proof (cases "err st1 = None")
  case False
  with assms show ?thesis by (auto simp add: msr_def)
next
  case True
  obtain t st0 where nt: "nextToken st = (t, st0)" by (cases "nextToken st")
  with assms True have len: "length t = 64" and st1: "str st1 = str st0"
    by (auto simp: parsePubkey_def split: if_splits prod.splits)
  from nt assms(1) len obtain i where
    "IndexAny (TrimSpace (str st)) ''(),[]'' = Some i" and t: "t = take i (TrimSpace (str st))"
    and s0: "str st0 = drop i (TrimSpace (str st))"
    by (auto simp: nextToken_def Let_def split: option.splits)
  with len have "length (str st0) + 64 \<le> length (TrimSpace (str st))" by auto
  with length_TrimSpace[of "str st"] st1 True assms(1) show ?thesis
    by (simp add: msr_def)
qed

function ucLoop :: "PublicKey list \<Rightarrow> pstate \<Rightarrow> PublicKey list \<times> pstate" where
  "ucLoop pks st =
     (if err st = None \<and> peek st \<noteq> CHR '']'' then
        (case parsePubkey st of (pk, st1) \<Rightarrow>
           ucLoop (pks @ [pk]) (if peek st1 \<noteq> CHR '']'' then consume CHR '','' st1 else st1))
      else (pks, st))"
  by pat_completeness auto
termination
proof (relation "measure (\<lambda>(pks, st). msr st)")
  show "wf (measure (\<lambda>(pks, st). msr st))" by simp
next
  fix pks :: "PublicKey list" and st :: pstate and pk st1
  assume a: "err st = None \<and> peek st \<noteq> CHR '']''" "(pk, st1) = parsePubkey st"
  then have "msr st1 < msr st" using parsePubkey_progress[of st pk st1] by simp
  moreover have "msr (consume CHR '','' st1) \<le> msr st1" by (rule consume_msr)
  ultimately show "((pks @ [pk], if peek st1 \<noteq> CHR '']'' then consume CHR '','' st1 else st1), pks, st)
      \<in> measure (\<lambda>(pks, st). msr st)" by simp
qed


declare ucLoop.simps [simp del]

function parseSpendPolicy :: "pstate \<Rightarrow> SpendPolicy \<times> pstate"
  and threshLoop :: "SpendPolicy list \<Rightarrow> pstate \<Rightarrow> SpendPolicy list \<times> pstate"
where
  "parseSpendPolicy st =
     (case nextToken st of (typ, st1) \<Rightarrow>
        let st2 = consume CHR ''('' st1 in
        if typ = ''above'' then
          (case parseInt 64 st2 of (h, st3) \<Rightarrow> (PolicyAbove h, consume CHR '')'' st3))
        else if typ = ''pk'' then
          (case parsePubkey st2 of (pk, st3) \<Rightarrow> (PolicyPublicKey pk, consume CHR '')'' st3))
        else if typ = ''thresh'' then
          (case parseInt 8 st2 of (n, st3) \<Rightarrow>
             (case threshLoop [] (consume CHR ''['' (consume CHR '','' st3)) of (ps, st4) \<Rightarrow>
                (PolicyThreshold (ucast n) ps, consume CHR '')'' (consume CHR '']'' st4))))
        else if typ = ''uc'' then
          (case parseInt 64 st2 of (timelock, st3) \<Rightarrow>
             (case ucLoop [] (consume CHR ''['' (consume CHR '','' st3)) of (pks, st4) \<Rightarrow>
                (case parseInt 8 (consume CHR '','' (consume CHR '']'' st4)) of (sigs, st5) \<Rightarrow>
                   (PolicyTypeUnlockConditions timelock pks (ucast sigs), consume CHR '')'' st5))))
        else
          (NilPolicy,
           consume CHR '')''
             (if err st2 = None then st2\<lparr>err := Some (ErrUnrecognizedPolicyType typ)\<rparr> else st2)))"
| "threshLoop ps st =
     (if err st = None \<and> peek st \<noteq> CHR '']'' then
        (case parseSpendPolicy st of (p, st1) \<Rightarrow>
           threshLoop (ps @ [p]) (if peek st1 \<noteq> CHR '']'' then consume CHR '','' st1 else st1))
      else (ps, st))"
  by pat_completeness auto


lemma ucLoop_msr: "ucLoop pks st = (pks', st') \<Longrightarrow> msr st' \<le> msr st"
proof (induction pks st arbitrary: pks' st' rule: ucLoop.induct)
  case (1 pks st)
  show ?case
  proof (cases "err st = None \<and> peek st \<noteq> CHR '']''")
    case False
    with "1.prems" show ?thesis by (subst (asm) ucLoop.simps) auto
  next
    case True
    obtain pk st1 where pp: "parsePubkey st = (pk, st1)" by (cases "parsePubkey st")
    define st2 where "st2 = (if peek st1 \<noteq> CHR '']'' then consume CHR '','' st1 else st1)"
    from "1.prems" True pp have "ucLoop (pks @ [pk]) st2 = (pks', st')"
      by (subst (asm) ucLoop.simps) (simp add: st2_def)
    with "1.IH"[OF True pp[symmetric]] have "msr st' \<le> msr st2" by (simp add: st2_def)
    also have "msr st2 \<le> msr st1" by (simp add: st2_def consume_msr)
    also have "msr st1 \<le> msr st" using pp by (rule parsePubkey_msr)
    finally show ?thesis .
  qed
qed

lemma parse_msr_dom:
  "parseSpendPolicy_threshLoop_dom (Inl st) \<Longrightarrow>
     msr (snd (parseSpendPolicy st)) \<le> msr st \<and>
     (err st = None \<longrightarrow> msr (snd (parseSpendPolicy st)) < msr st)"
  and "parseSpendPolicy_threshLoop_dom (Inr (ps, st)) \<Longrightarrow> msr (snd (threshLoop ps st)) \<le> msr st"
proof (induct rule: parseSpendPolicy_threshLoop.pinduct)
  case (1 st)
  obtain ty st1 where nt: "nextToken st = (ty, st1)" by (cases "nextToken st")
  define st2 where "st2 = consume CHR ''('' st1"
  have m1: "msr st1 \<le> msr st" using nt by (rule nextToken_msr)
  have e1: "err st1 = err st" using nt by (rule nextToken_err)
  have m2: "msr st2 \<le> msr st" using m1 consume_msr[of "CHR ''(''" st1] by (simp add: st2_def)
  have m2': "msr st2 < msr st" if "err st = None"
    using that m1 e1 consume_msr_less[of st1 "CHR ''(''"] by (simp add: st2_def)
  have fin: "msr (snd (parseSpendPolicy st)) \<le> msr st2"
  proof -
    consider (above) "ty = ''above''" | (pk) "ty = ''pk''" | (thresh) "ty = ''thresh''"
      | (uc) "ty = ''uc''"
      | (other) "ty \<noteq> ''above''" "ty \<noteq> ''pk''" "ty \<noteq> ''thresh''" "ty \<noteq> ''uc''"
      by blast
    then show ?thesis
    proof cases
      case above
      obtain h st3 where pi: "parseInt 64 st2 = (h, st3)" by (cases "parseInt 64 st2")
      have "msr (consume CHR '')'' st3) \<le> msr st3" by (rule consume_msr)
      also have "\<dots> \<le> msr st2" using pi by (rule parseInt_msr)
      finally show ?thesis
        using above nt pi by (simp add: parseSpendPolicy.psimps[OF "1.hyps"(1)] st2_def[symmetric])
    next
      case pk
      obtain k st3 where pp: "parsePubkey st2 = (k, st3)" by (cases "parsePubkey st2")
      have "msr (consume CHR '')'' st3) \<le> msr st3" by (rule consume_msr)
      also have "\<dots> \<le> msr st2" using pp by (rule parsePubkey_msr)
      finally show ?thesis
        using pk nt pp by (simp add: parseSpendPolicy.psimps[OF "1.hyps"(1)] st2_def[symmetric])
    next
      case thresh
      obtain n st3 where pi: "parseInt 8 st2 = (n, st3)" by (cases "parseInt 8 st2")
      define st3' where "st3' = consume CHR ''['' (consume CHR '','' st3)"
      obtain ps' st4 where tl: "threshLoop [] st3' = (ps', st4)" by (cases "threshLoop [] st3'")
      have "msr st4 \<le> msr st3'"
        using "1.hyps"(2)[OF nt[symmetric] st2_def _ _ thresh pi[symmetric]] thresh tl
        by (simp add: st3'_def)
      also have "\<dots> \<le> msr st3"
        using consume_msr[of "CHR ''[''" "consume CHR '','' st3"] consume_msr[of "CHR '',''" st3]
        by (simp add: st3'_def)
      also have "\<dots> \<le> msr st2" using pi by (rule parseInt_msr)
      finally have "msr st4 \<le> msr st2" .
      moreover have "msr (consume CHR '')'' (consume CHR '']'' st4)) \<le> msr st4"
        using consume_msr[of "CHR '')''" "consume CHR '']'' st4"] consume_msr[of "CHR '']''" st4]
        by simp
      ultimately show ?thesis
        using thresh nt pi tl
        by (simp add: parseSpendPolicy.psimps[OF "1.hyps"(1)] st2_def[symmetric] st3'_def[symmetric])
    next
      case uc
      obtain tl st3 where pi: "parseInt 64 st2 = (tl, st3)" by (cases "parseInt 64 st2")
      define st3' where "st3' = consume CHR ''['' (consume CHR '','' st3)"
      obtain pks st4 where ul: "ucLoop [] st3' = (pks, st4)" by (cases "ucLoop [] st3'")
      define st4' where "st4' = consume CHR '','' (consume CHR '']'' st4)"
      obtain sg st5 where pi2: "parseInt 8 st4' = (sg, st5)" by (cases "parseInt 8 st4'")
      have "msr (consume CHR '')'' st5) \<le> msr st5" by (rule consume_msr)
      also have "\<dots> \<le> msr st4'" using pi2 by (rule parseInt_msr)
      also have "\<dots> \<le> msr st4"
        using consume_msr[of "CHR '',''" "consume CHR '']'' st4"] consume_msr[of "CHR '']''" st4]
        by (simp add: st4'_def)
      also have "\<dots> \<le> msr st3'" using ul by (rule ucLoop_msr)
      also have "\<dots> \<le> msr st3"
        using consume_msr[of "CHR ''[''" "consume CHR '','' st3"] consume_msr[of "CHR '',''" st3]
        by (simp add: st3'_def)
      also have "\<dots> \<le> msr st2" using pi by (rule parseInt_msr)
      finally show ?thesis
        using uc nt pi ul pi2
        by (simp add: parseSpendPolicy.psimps[OF "1.hyps"(1)] st2_def[symmetric]
            st3'_def[symmetric] st4'_def[symmetric])
    next
      case other
      have "msr (consume CHR '')'' (if err st2 = None
               then st2\<lparr>err := Some (ErrUnrecognizedPolicyType ty)\<rparr> else st2)) \<le> msr st2"
        using consume_msr[of "CHR '')''" st2] by (auto simp: msr_def consume_def)
      then show ?thesis
        using other nt
        by (simp add: parseSpendPolicy.psimps[OF "1.hyps"(1)] st2_def[symmetric])
    qed
  qed
  show ?case using fin m2 m2' by auto
next
  case (2 ps st)
  show ?case
  proof (cases "err st = None \<and> peek st \<noteq> CHR '']''")
    case False
    then show ?thesis by (auto simp add: threshLoop.psimps[OF "2.hyps"(1)])
  next
    case True
    obtain p st1 where pp: "parseSpendPolicy st = (p, st1)" by (cases "parseSpendPolicy st")
    define st2 where "st2 = (if peek st1 \<noteq> CHR '']'' then consume CHR '','' st1 else st1)"
    have "msr (snd (threshLoop (ps @ [p]) st2)) \<le> msr st2"
      using "2.hyps"(3)[OF True pp[symmetric]] by (simp add: st2_def)
    also have "msr st2 \<le> msr st1" by (simp add: st2_def consume_msr)
    also have "msr st1 \<le> msr st" using "2.hyps"(2)[OF True] pp by simp
    finally show ?thesis
      using True pp by (simp add: threshLoop.psimps[OF "2.hyps"(1)] st2_def[symmetric])
  qed
qed

termination parseSpendPolicy
proof (relation "measure (\<lambda>x. case x of Inl st \<Rightarrow> 2 * msr st | Inr (ps, st) \<Rightarrow> 2 * msr st + 1)")
  show "wf (measure (\<lambda>x. case x of Inl st \<Rightarrow> 2 * msr st | Inr (ps, st) \<Rightarrow> 2 * msr st + 1))"
    by simp
next
  fix st st1 st2 st3 :: pstate and ty :: string and n :: "64 word"
  assume nt: "(ty, st1) = nextToken st" and st2: "st2 = consume CHR ''('' st1"
    and ty: "ty = ''thresh''" and pi: "(n, st3) = parseInt 8 st2"
  from nt ty have e: "err st = None" using nextToken_tok[of st ty st1] by simp
  have "msr (consume CHR ''['' (consume CHR '','' st3)) \<le> msr st3"
    using consume_msr[of "CHR ''[''" "consume CHR '','' st3"] consume_msr[of "CHR '',''" st3]
    by simp
  also have "\<dots> \<le> msr st2" using pi[symmetric] by (rule parseInt_msr)
  also have "\<dots> < msr st1"
    using e nextToken_err[OF nt[symmetric]] consume_msr_less[of st1 "CHR ''(''"] by (simp add: st2)
  also have "\<dots> \<le> msr st" using nt[symmetric] by (rule nextToken_msr)
  finally show "(Inr ([], consume CHR ''['' (consume CHR '','' st3)), Inl st)
      \<in> measure (\<lambda>x. case x of Inl st \<Rightarrow> 2 * msr st | Inr (ps, st) \<Rightarrow> 2 * msr st + 1)"
    by simp
next
  fix ps :: "SpendPolicy list" and st :: pstate
  show "(Inl st, Inr (ps, st))
      \<in> measure (\<lambda>x. case x of Inl st \<Rightarrow> 2 * msr st | Inr (ps, st) \<Rightarrow> 2 * msr st + 1)"
    by simp
next
  fix ps :: "SpendPolicy list" and st st1 :: pstate and p :: SpendPolicy
  assume c: "err st = None \<and> peek st \<noteq> CHR '']''" and pp: "(p, st1) = parseSpendPolicy st"
    and dom: "parseSpendPolicy_threshLoop_dom (Inl st)"
  from parse_msr_dom(1)[OF dom] c pp[symmetric] have "msr st1 < msr st" by simp
  moreover have "msr (consume CHR '','' st1) \<le> msr st1" by (rule consume_msr)
  ultimately show "(Inr (ps @ [p], if peek st1 \<noteq> CHR '']'' then consume CHR '','' st1 else st1),
       Inr (ps, st))
      \<in> measure (\<lambda>x. case x of Inl st \<Rightarrow> 2 * msr st | Inr (ps, st) \<Rightarrow> 2 * msr st + 1)"
    by simp
qed

declare parseSpendPolicy.simps [simp del] threshLoop.simps [simp del]

text \<open>
  The exported function: the parser runs on the whole input with no error set; text
  left over after the top-level policy is an error.
\<close>

definition ParseSpendPolicy :: "string \<Rightarrow> SpendPolicy \<times> error option" where
  "ParseSpendPolicy s =
     (case parseSpendPolicy \<lparr>str = s, err = None\<rparr> of (p, st) \<Rightarrow>
        if err st = None \<and> str st \<noteq> [] then (p, Some (ErrTrailingBytes (str st)))
        else (p, err st))"

subsection \<open>Text and JSON adapters\<close>

definition MarshalText :: "SpendPolicy \<Rightarrow> string" where
  "MarshalText p = String p"

definition UnmarshalText :: "string \<Rightarrow> SpendPolicy \<times> error option" where
  "UnmarshalText b = ParseSpendPolicy b"

text \<open>The quote character \<open>0x22\<close>.\<close>

definition quote :: char where
  "quote = CHR 0x22"

definition MarshalJSON :: "SpendPolicy \<Rightarrow> string" where
  "MarshalJSON p = [quote] @ String p @ [quote]"

definition UnmarshalJSON :: "string \<Rightarrow> SpendPolicy \<times> error option" where
  "UnmarshalJSON b = UnmarshalText (bytesTrim b [quote])"

section \<open>Address derivation\<close>

subsection \<open>The legacy Merkle root of unlock conditions\<close>

text \<open>
  \<open>HashBytes\<close> is not part of the sources at hand; it is a parameter \<open>H\<close> of
  everything below. An index outside an array is a run-time panic of Go.
\<close>

datatype panic = IndexOutOfRange

text \<open>Go's \<open>copy(dst[off:], src)\<close>: as many elements as fit.\<close>

definition copyAt :: "'a list \<Rightarrow> nat \<Rightarrow> 'a list \<Rightarrow> 'a list" where
  "copyAt dst off src = take off dst @ take (length dst - off) src @ drop (off + length src) dst"

text \<open>The eight bytes \<open>binary.LittleEndian.PutUint64\<close> writes.\<close>

definition le64 :: "64 word \<Rightarrow> byte list" where
  "le64 v = map (\<lambda>i. ucast (drop_bit (8 * i) v)) [0..<8]"

definition PutUint64 :: "byte list \<Rightarrow> nat \<Rightarrow> 64 word \<Rightarrow> byte list" where
  "PutUint64 b off v = copyAt b off (le64 v)"

text \<open>The string constant \<open>"ed25519\x00\x00\x00\x00\x00\x00\x00\x00\x00"\<close>.\<close>

definition ed25519 :: "byte list" where
  "ed25519 = map of_char ''ed25519'' @ replicate 9 0"

text \<open>
  The three closures share the 65-byte buffer \<open>buf\<close>; each takes the buffer and
  returns it as it has left it.
\<close>

definition uint64Leaf :: "(byte list \<Rightarrow> Hash256) \<Rightarrow> 64 word \<Rightarrow> byte list \<Rightarrow> Hash256 \<times> byte list" where
  "uint64Leaf H u buf =
     (let b1 = buf[0 := 0];
          b2 = PutUint64 b1 1 u
      in (H (take 9 b2), b2))"

definition pubkeyLeaf :: "(byte list \<Rightarrow> Hash256) \<Rightarrow> PublicKey \<Rightarrow> byte list \<Rightarrow> Hash256 \<times> byte list" where
  "pubkeyLeaf H pk buf =
     (let b1 = buf[0 := 0];
          b2 = copyAt b1 1 ed25519;
          b3 = PutUint64 b2 17 (of_nat (length pk));
          b4 = copyAt b3 25 pk
      in (H (take 57 b4), b4))"

definition nodeHash :: "(byte list \<Rightarrow> Hash256) \<Rightarrow> Hash256 \<Rightarrow> Hash256 \<Rightarrow> byte list \<Rightarrow> Hash256 \<times> byte list" where
  "nodeHash H left right buf =
     (let b1 = buf[0 := 1];
          b2 = copyAt b1 1 left;
          b3 = copyAt b2 33 right
      in (H (take 65 b3), b3))"

record accumulator =
  buf :: "byte list"
  trees :: "Hash256 list"
  numLeaves :: "8 word"

lemma bit_u8_less: "(w :: 8 word) AND push_bit i 1 \<noteq> 0 \<Longrightarrow> i < 8"
  using bit_imp_le_length[of w i] by (simp add: bit_iff_and_push_bit_not_eq_0 del: push_bit_of_1)

lemma bit_u8_less': "(w :: 8 word) AND 2 ^ i \<noteq> 0 \<Longrightarrow> i < 8"
  using bit_u8_less[of w i] by simp

text \<open>
  The loop of \<open>addLeaf\<close>: \<open>1<<i\<close> is a \<open>uint8\<close>, so it is 0 from \<open>i = 8\<close> on and the
  loop ends there at the latest.
\<close>

function addLeafLoop ::
  "(byte list \<Rightarrow> Hash256) \<Rightarrow> Hash256 list \<Rightarrow> 8 word \<Rightarrow> nat \<Rightarrow> Hash256 \<Rightarrow> byte list
    \<Rightarrow> panic + (nat \<times> Hash256 \<times> byte list)" where
  "addLeafLoop H ts n i h b =
     (if n AND push_bit i 1 \<noteq> 0 then
        (if i < length ts then
           (case nodeHash H (ts ! i) h b of (h', b') \<Rightarrow> addLeafLoop H ts n (Suc i) h' b')
         else Inl IndexOutOfRange)
      else Inr (i, h, b))"
  by pat_completeness auto
termination
  by (relation "measure (\<lambda>(H, ts, n, i, h, b). 8 - i)") (auto dest: bit_u8_less')

declare addLeafLoop.simps [simp del]

definition addLeaf :: "(byte list \<Rightarrow> Hash256) \<Rightarrow> Hash256 \<Rightarrow> accumulator \<Rightarrow> panic + accumulator" where
  "addLeaf H h st =
     (case addLeafLoop H (trees st) (numLeaves st) 0 h (buf st) of
        Inl e \<Rightarrow> Inl e
      | Inr (i, h', b') \<Rightarrow>
          if i < length (trees st) then
            Inr (st\<lparr>buf := b', trees := (trees st)[i := h'], numLeaves := numLeaves st + 1\<rparr>)
          else Inl IndexOutOfRange)"

text \<open>\<open>bits.TrailingZeros8\<close>: the number of trailing zero bits, 8 for 0.\<close>

definition TrailingZeros8 :: "8 word \<Rightarrow> nat" where
  "TrailingZeros8 x = (if x = 0 then 8 else length (takeWhile (\<lambda>i. \<not> bit x i) [0..<8]))"

function treeRootLoop ::
  "(byte list \<Rightarrow> Hash256) \<Rightarrow> Hash256 list \<Rightarrow> 8 word \<Rightarrow> nat \<Rightarrow> Hash256 \<Rightarrow> byte list
    \<Rightarrow> Hash256 \<times> byte list" where
  "treeRootLoop H ts n i r b =
     (if i < length ts then
        (if n AND push_bit i 1 \<noteq> 0 then
           (case nodeHash H (ts ! i) r b of (r', b') \<Rightarrow> treeRootLoop H ts n (Suc i) r' b')
         else treeRootLoop H ts n (Suc i) r b)
      else (r, b))"
  by pat_completeness auto
termination
  by (relation "measure (\<lambda>(H, ts, n, i, r, b). length ts - i)") auto

declare treeRootLoop.simps [simp del]

definition treeRoot :: "(byte list \<Rightarrow> Hash256) \<Rightarrow> accumulator \<Rightarrow> panic + Hash256" where
  "treeRoot H st =
     (let i = TrailingZeros8 (numLeaves st) in
      if i < length (trees st) then
        Inr (fst (treeRootLoop H (trees st) (numLeaves st) (Suc i) (trees st ! i) (buf st)))
      else Inl IndexOutOfRange)"

text \<open>The loop over the public keys.\<close>

fun addKeys :: "(byte list \<Rightarrow> Hash256) \<Rightarrow> PublicKey list \<Rightarrow> accumulator \<Rightarrow> panic + accumulator" where
  "addKeys H [] st = Inr st"
| "addKeys H (key # keys) st =
     (case pubkeyLeaf H key (buf st) of (h, b) \<Rightarrow>
        (case addLeaf H h (st\<lparr>buf := b\<rparr>) of
           Inl e \<Rightarrow> Inl e
         | Inr st' \<Rightarrow> addKeys H keys st'))"

definition initAccumulator :: accumulator where
  "initAccumulator = \<lparr>buf = replicate 65 0, trees = replicate 8 (replicate 32 0), numLeaves = 0\<rparr>"

text \<open>\<open>root\<close> of \<open>PolicyTypeUnlockConditions{Timelock, PublicKeys, SignaturesRequired}\<close>.\<close>

definition root :: "(byte list \<Rightarrow> Hash256) \<Rightarrow> 64 word \<Rightarrow> PublicKey list \<Rightarrow> 8 word \<Rightarrow> panic + Hash256" where
  "root H Timelock PublicKeys SignaturesRequired =
     (case uint64Leaf H Timelock (buf initAccumulator) of (h1, b1) \<Rightarrow>
       (case addLeaf H h1 (initAccumulator\<lparr>buf := b1\<rparr>) of
          Inl e \<Rightarrow> Inl e
        | Inr st1 \<Rightarrow>
           (case addKeys H PublicKeys st1 of
              Inl e \<Rightarrow> Inl e
            | Inr st2 \<Rightarrow>
               (case uint64Leaf H (ucast SignaturesRequired) (buf st2) of (h3, b3) \<Rightarrow>
                 (case addLeaf H h3 (st2\<lparr>buf := b3\<rparr>) of
                    Inl e \<Rightarrow> Inl e
                  | Inr st3 \<Rightarrow> treeRoot H st3)))))"

subsection \<open>Address\<close>

text \<open>
  The hasher, its encoder and \<open>EncodeTo\<close> are not part of the sources at hand: they
  are parameters, over any type \<open>'h\<close> of hasher states.
\<close>

record 'h Hasher =
  Reset :: "'h \<Rightarrow> 'h"
  WriteString :: "string \<Rightarrow> 'h \<Rightarrow> 'h"
  EncodeTo :: "SpendPolicy \<Rightarrow> 'h \<Rightarrow> 'h"
  Sum :: "'h \<Rightarrow> Hash256"

text \<open>\<open>h0\<close> is the state of the hasher that the pool hands out.\<close>

fun Address :: "(byte list \<Rightarrow> Hash256) \<Rightarrow> 'h Hasher \<Rightarrow> 'h \<Rightarrow> SpendPolicy \<Rightarrow> panic + Hash256" where
  "Address H ops h0 (PolicyTypeUnlockConditions timelock pks sigs) = root H timelock pks sigs"
| "Address H ops h0 p = Inr (Sum ops (EncodeTo ops p (WriteString ops ''sia/address'' (Reset ops h0))))"

definition StandardAddress :: "(byte list \<Rightarrow> Hash256) \<Rightarrow> 'h Hasher \<Rightarrow> 'h \<Rightarrow> PublicKey \<Rightarrow> panic + Hash256" where
  "StandardAddress H ops h0 pk = Address H ops h0 (PolicyPublicKey pk)"

section \<open>Facts about the parser's steps\<close>

text \<open>
  A parser state either has no error (\<open>ok\<close>) or has one (\<open>bad\<close>). A string is
  \<open>tight\<close> when \<open>TrimSpace\<close> leaves it alone: it neither starts with the first byte
  nor ends with the last byte of a white-space rune.
\<close>

definition ok :: "string \<Rightarrow> pstate" where
  "ok s = \<lparr>str = s, err = None\<rparr>"

definition nondelim :: "char \<Rightarrow> bool" where
  "nondelim c = (c \<notin> set ''(),[]'')"

definition spaceLead :: "char set" where
  "spaceLead = {CHR 0x09, CHR 0x0A, CHR 0x0B, CHR 0x0C, CHR 0x0D, CHR 0x20, CHR 0xC2, CHR 0xE1, CHR 0xE2, CHR 0xE3}"

definition spaceTrail :: "char set" where
  "spaceTrail = {CHR 0x09, CHR 0x0A, CHR 0x0B, CHR 0x0C, CHR 0x0D, CHR 0x20, CHR 0x85, CHR 0xA0,
     CHR 0x80, CHR 0x81, CHR 0x82, CHR 0x83, CHR 0x84, CHR 0x86, CHR 0x87, CHR 0x88, CHR 0x89,
     CHR 0x8A, CHR 0xA8, CHR 0xA9, CHR 0xAF, CHR 0x9F}"

definition endOK :: "string \<Rightarrow> bool" where
  "endOK s = (s = [] \<or> last s \<notin> spaceTrail)"

definition tight :: "string \<Rightarrow> bool" where
  "tight s = (s = [] \<or> (hd s \<notin> spaceLead \<and> last s \<notin> spaceTrail))"

lemma hd_spaceRunes: "hd ` set spaceRunes = spaceLead"
  by (auto simp add: spaceRunes_def spaceLead_def)

lemma last_spaceRunes: "hd ` set (map rev spaceRunes) = spaceTrail"
  by (auto simp add: spaceRunes_def spaceTrail_def)

lemma stripRunes_id:
  assumes "s = [] \<or> hd s \<notin> hd ` set ws"
  shows "stripRunes ws s = s"
proof -
  have "List.find (\<lambda>w. w \<noteq> [] \<and> prefix w s) ws = None"
  proof (rule ccontr)
    assume "List.find (\<lambda>w. w \<noteq> [] \<and> prefix w s) ws \<noteq> None"
    then obtain w where w: "w \<in> set ws" "w \<noteq> []" "prefix w s"
      by (auto simp: find_None_iff)
    then have "s \<noteq> []" "hd w = hd s" by (auto simp: prefix_def)
    with assms have "hd w \<notin> hd ` set ws" by simp
    with w(1) show False by blast
  qed
  then show ?thesis by (subst stripRunes.simps) simp
qed

lemma TrimSpace_tight: "tight s \<Longrightarrow> TrimSpace s = s"
proof -
  assume t: "tight s"
  have 1: "stripRunes spaceRunes s = s"
    using t by (intro stripRunes_id) (auto simp: tight_def hd_spaceRunes)
  have "rev s = [] \<or> hd (rev s) \<notin> hd ` set (map rev spaceRunes)"
    unfolding last_spaceRunes using t by (auto simp: tight_def hd_rev)
  then have 2: "stripRunes (map rev spaceRunes) (rev s) = rev s"
    by (rule stripRunes_id)
  show ?thesis by (simp add: TrimSpace_def 1 2)
qed

lemma IndexAny_conv:
  "IndexAny s cs = (if \<forall>c\<in>set s. c \<notin> set cs then None
                    else Some (length (takeWhile (\<lambda>c. c \<notin> set cs) s)))"
  by (induction s) auto

lemma IndexAny_Some:
  assumes "dropWhile (\<lambda>c. c \<notin> set cs) s \<noteq> []"
  shows "IndexAny s cs = Some (length (takeWhile (\<lambda>c. c \<notin> set cs) s))"
proof -
  from assms have "\<not> (\<forall>c\<in>set s. c \<notin> set cs)"
    by simp
  then show ?thesis by (simp only: IndexAny_conv if_False)
qed

definition bad :: "string \<Rightarrow> error \<Rightarrow> pstate" where
  "bad s e = \<lparr>str = s, err = Some e\<rparr>"

lemma nextToken_ok:
  assumes "tight s" "dropWhile nondelim s \<noteq> []"
  shows "nextToken (ok s) = (takeWhile nondelim s, ok (dropWhile nondelim s))"
proof -
  have nd: "nondelim = (\<lambda>c. c \<notin> set ''(),[]'')" by (rule ext) (simp add: nondelim_def)
  have "IndexAny s ''(),[]'' = Some (length (takeWhile nondelim s))"
    using IndexAny_Some[of "''(),[]''" s] assms(2) unfolding nd by simp
  then show ?thesis
    by (simp add: nextToken_def ok_def TrimSpace_tight[OF assms(1)]
        takeWhile_eq_take[symmetric] dropWhile_eq_drop[symmetric])
qed

lemma nextToken_bad: "nextToken (bad s e) = ([], bad (TrimSpace s) e)"
  by (simp add: nextToken_def bad_def Let_def split: option.splits)

lemma consume_ok: "tight (b # s) \<Longrightarrow> consume b (ok (b # s)) = ok s"
  by (simp add: consume_def ok_def TrimSpace_tight)

lemma consume_bad [simp]: "consume b (bad s e) = bad s e"
  by (simp add: consume_def bad_def)

lemma peek_ok [simp]: "peek (ok (c # s)) = c"
  by (simp add: peek_def ok_def)

lemma peek_bad [simp]: "peek (bad s e) = CHR 0x00"
  by (simp add: peek_def bad_def)

lemma err_ok [simp]: "err (ok s) = None" and str_ok [simp]: "str (ok s) = s"
  and err_bad [simp]: "err (bad s e) = Some e" and str_bad [simp]: "str (bad s e) = s"
  by (simp_all add: ok_def bad_def)

lemma ok_err_update [simp]: "(ok s)\<lparr>err := None\<rparr> = ok s" "(ok s)\<lparr>err := Some e\<rparr> = bad s e"
  by (simp_all add: ok_def bad_def)

lemma endOK_Cons: "endOK (c # s) = (if s = [] then c \<notin> spaceTrail else endOK s)"
  by (simp add: endOK_def)

lemma endOK_append: "endOK (x @ y) = (if y = [] then endOK x else endOK y)"
  by (simp add: endOK_def)

lemma tight_Cons: "tight (c # s) = (c \<notin> spaceLead \<and> endOK (c # s))"
  by (simp add: tight_def endOK_def)

lemma nondelim_simps [simp]:
  "nondelim c = (c \<noteq> CHR ''('' \<and> c \<noteq> CHR '')'' \<and> c \<noteq> CHR '','' \<and> c \<noteq> CHR ''['' \<and> c \<noteq> CHR '']'')"
  by (auto simp add: nondelim_def)

lemma parseInt_ok:
  "nextToken (ok s) = (t, ok s') \<Longrightarrow> parseInt k (ok s) =
     (of_nat (fst (ParseUint t k)), (case snd (ParseUint t k) of None \<Rightarrow> ok s' | Some e \<Rightarrow> bad s' e))"
  by (simp add: parseInt_def split: prod.splits option.splits)

lemma parseInt_bad: "parseInt k (bad s e) = (0, bad (TrimSpace s) e)"
  by (simp add: parseInt_def nextToken_bad)


lemma threshLoop_bad: "threshLoop ps (bad s e) = (ps, bad s e)"
  by (simp add: threshLoop.simps)

lemma ucLoop_bad: "ucLoop ps (bad s e) = (ps, bad s e)"
  by (simp add: ucLoop.simps)

lemma threshLoop_ok: "threshLoop ps (ok (c # s)) =
     (if c \<noteq> CHR '']'' then
        (case parseSpendPolicy (ok (c # s)) of (p, st1) \<Rightarrow>
           threshLoop (ps @ [p]) (if peek st1 \<noteq> CHR '']'' then consume CHR '','' st1 else st1))
      else (ps, ok (c # s)))"
  by (subst threshLoop.simps) simp


section \<open>Tokens\<close>

subsection \<open>Decimal tokens\<close>

text \<open>The value of a string of decimal digits, leading zeros allowed.\<close>

definition decval :: "string \<Rightarrow> nat" where
  "decval t = foldl (\<lambda>n c. n * 10 + digitVal c) 0 t"

lemma foldl_dec_ge: "n \<le> foldl (\<lambda>n c. n * 10 + digitVal c) n t"
proof (induction t arbitrary: n)
  case Nil
  show ?case by simp
next
  case (Cons c cs)
  have "n \<le> n * 10 + digitVal c" by simp
  also have "\<dots> \<le> foldl (\<lambda>n c. n * 10 + digitVal c) (n * 10 + digitVal c) cs" by (rule Cons.IH)
  finally show ?case by simp
qed

lemma parseUintLoop_digits:
  "list_all isDigit t \<Longrightarrow> n \<le> m \<Longrightarrow>
   parseUintLoop m n t =
     (if foldl (\<lambda>n c. n * 10 + digitVal c) n t \<le> m
      then (foldl (\<lambda>n c. n * 10 + digitVal c) n t, None) else (m, Some ErrRange))"
proof (induction t arbitrary: n)
  case Nil
  then show ?case by simp
next
  case (Cons c cs)
  show ?case
  proof (cases "m < n * 10 + digitVal c")
    case True
    with foldl_dec_ge[of "n * 10 + digitVal c" cs] Cons.prems show ?thesis by simp
  next
    case False
    then have "n * 10 + digitVal c \<le> m" by simp
    with Cons.IH[of "n * 10 + digitVal c"] Cons.prems False show ?thesis by simp
  qed
qed

lemma ParseUint_digits:
  "t \<noteq> [] \<Longrightarrow> list_all isDigit t \<Longrightarrow>
   ParseUint t k = (if decval t < 2 ^ k then (decval t, None) else (2 ^ k - 1, Some ErrRange))"
proof -
  assume a: "t \<noteq> []" "list_all isDigit t"
  have "(decval t \<le> 2 ^ k - 1) = (decval t < 2 ^ k)"
    using one_le_power[of "2::nat" k] by linarith
  with a show ?thesis
    by (simp add: ParseUint_def parseUintLoop_digits decval_def)
qed

lemma digitChar_props: "d < 10 \<Longrightarrow> isDigit (digitChar d) \<and> digitVal (digitChar d) = d"
  by (simp add: isDigit_def digitVal_def digitChar_def)

lemma decval_snoc: "decval (t @ [c]) = decval t * 10 + digitVal c"
  by (simp add: decval_def)

lemma FormatUint_props:
  "FormatUint n \<noteq> [] \<and> list_all isDigit (FormatUint n) \<and> decval (FormatUint n) = n"
proof (induction n rule: FormatUint.induct)
  case (1 n)
  show ?case
  proof (cases "n < 10")
    case True
    then have "FormatUint n = [digitChar n]" by (subst FormatUint.simps) simp
    with True show ?thesis
      using digitChar_props[of n] decval_snoc[of "[]" "digitChar n"] by (simp add: decval_def)
  next
    case False
    then have eq: "FormatUint n = FormatUint (n div 10) @ [digitChar (n mod 10)]"
      by (subst FormatUint.simps) simp
    from False 1 have IH: "list_all isDigit (FormatUint (n div 10))" "decval (FormatUint (n div 10)) = n div 10"
      by simp_all
    have d: "isDigit (digitChar (n mod 10))" "digitVal (digitChar (n mod 10)) = n mod 10"
      using digitChar_props[of "n mod 10"] by simp_all
    show ?thesis unfolding eq using IH d by (simp add: decval_snoc)
  qed
qed

lemma isDigit_nondelim: "isDigit c \<Longrightarrow> nondelim c"
  by (auto simp: isDigit_def)

lemma isDigit_not_space: "isDigit c \<Longrightarrow> c \<notin> spaceLead \<and> c \<notin> spaceTrail"
  by (auto simp: isDigit_def spaceLead_def spaceTrail_def)

subsection \<open>Hexadecimal tokens\<close>

definition isHex :: "char \<Rightarrow> bool" where
  "isHex c = (fromHexChar c \<noteq> None)"

fun hexBytes :: "string \<Rightarrow> byte list" where
  "hexBytes (p # q # rest) = (push_bit 4 (the (fromHexChar p)) OR the (fromHexChar q)) # hexBytes rest"
| "hexBytes [p] = []"
| "hexBytes [] = []"

lemma length_hexBytes: "length (hexBytes t) = length t div 2"
  by (induction t rule: hexBytes.induct) simp_all

lemma hexDecode_hex:
  "list_all isHex t \<Longrightarrow> even (length t) \<Longrightarrow> i + length t div 2 \<le> length dst \<Longrightarrow>
   hexDecode dst i t = (take i dst @ hexBytes t @ drop (i + length t div 2) dst, None)"
proof (induction dst i t rule: hexDecode.induct)
  case (1 dst i)
  then show ?case by simp
next
  case (2 dst i p)
  then show ?case by simp
next
  case (3 dst i p q rest)
  from "3.prems" obtain a b where ab: "fromHexChar p = Some a" "fromHexChar q = Some b"
    by (auto simp: isHex_def)
  from "3.prems" have i: "i < length dst" by simp
  have "hexDecode (dst[i := push_bit 4 a OR b]) (Suc i) rest =
      (take (Suc i) (dst[i := push_bit 4 a OR b]) @ hexBytes rest @
        drop (Suc i + length rest div 2) (dst[i := push_bit 4 a OR b]), None)"
    using "3.IH"[OF ab] "3.prems" by simp
  with ab i show ?case
    by (simp add: take_Suc_conv_app_nth)
qed

lemma isHex_nondelim: "isHex c \<Longrightarrow> nondelim c"
  by (auto simp: isHex_def fromHexChar_def Let_def split: if_splits)

lemma isHex_not_space: "isHex c \<Longrightarrow> c \<notin> spaceLead \<and> c \<notin> spaceTrail"
  by (auto simp: isHex_def fromHexChar_def Let_def spaceLead_def spaceTrail_def split: if_splits)


lemma nibble_cases: "n < 16 \<Longrightarrow> n \<in> {0, 1, 2, 3, 4, 5, 6, 7, 8, 9, 10, 11, 12, 13, 14, 15 :: nat}"
  by simp arith

lemma hextable_nibble: "n < 16 \<Longrightarrow> fromHexChar (hextable ! n) = Some (of_nat n)"
  using nibble_cases[of n] by (auto simp add: hextable_def fromHexChar_def)

lemma byte_nibbles: "push_bit 4 (drop_bit 4 b) OR (b AND 0x0f) = (b :: byte)"
proof -
  have m: "(0x0f :: byte) = mask 4" by (simp add: mask_eq_exp_minus_1)
  show ?thesis unfolding m
    by (rule bit_word_eqI) (auto simp add: bit_simps)
qed

subsection \<open>Steps over tokens\<close>

lemma delim_not_space [simp]:
  "CHR ''('' \<notin> spaceLead" "CHR '')'' \<notin> spaceLead" "CHR '','' \<notin> spaceLead"
  "CHR ''['' \<notin> spaceLead" "CHR '']'' \<notin> spaceLead"
  "CHR ''('' \<notin> spaceTrail" "CHR '')'' \<notin> spaceTrail" "CHR '','' \<notin> spaceTrail"
  "CHR ''['' \<notin> spaceTrail" "CHR '']'' \<notin> spaceTrail"
  by (simp_all add: spaceLead_def spaceTrail_def)

lemma letter_not_space [simp]:
  "CHR ''a'' \<notin> spaceLead" "CHR ''p'' \<notin> spaceLead" "CHR ''t'' \<notin> spaceLead" "CHR ''u'' \<notin> spaceLead"
  by (simp_all add: spaceLead_def)

lemma tight_tok: "t \<noteq> [] \<Longrightarrow> hd t \<notin> spaceLead \<Longrightarrow> endOK (t @ s) \<Longrightarrow> tight (t @ s)"
  by (simp add: tight_def endOK_def)

lemma nextToken_token:
  assumes "t \<noteq> []" "list_all nondelim t" "hd t \<notin> spaceLead" "\<not> nondelim d" "endOK (d # r)"
  shows "nextToken (ok (t @ d # r)) = (t, ok (d # r))"
proof -
  have e: "endOK (t @ d # r)" using assms(5) by (simp add: endOK_append)
  have ti: "tight (t @ d # r)" using assms(1,3) e by (rule tight_tok)
  have nd: "\<And>x. x \<in> set t \<Longrightarrow> nondelim x" using assms(2) by (simp add: list_all_iff)
  have tw: "takeWhile nondelim (t @ d # r) = t" using nd assms(4) by (simp del: nondelim_simps)
  have dw: "dropWhile nondelim (t @ d # r) = d # r" using nd assms(4) by (simp del: nondelim_simps)
  show ?thesis using nextToken_ok[OF ti] by (simp only: tw dw) simp
qed

lemma consume_delim: "b \<notin> spaceLead \<Longrightarrow> endOK (b # r) \<Longrightarrow> consume b (ok (b # r)) = ok r"
  by (simp add: consume_ok tight_Cons)

definition numTok :: "nat \<Rightarrow> string \<Rightarrow> bool" where
  "numTok k t = (t \<noteq> [] \<and> list_all isDigit t \<and> decval t < 2 ^ k)"

definition keyTok :: "string \<Rightarrow> bool" where
  "keyTok t = (length t = 64 \<and> list_all isHex t)"

lemma digits_tok:
  assumes "t \<noteq> []" "list_all isDigit t"
  shows "list_all nondelim t" "hd t \<notin> spaceLead"
proof -
  show "list_all nondelim t" using assms(2) isDigit_nondelim by (auto simp: list_all_iff simp del: nondelim_simps)
  from assms have "isDigit (hd t)" by (cases t) simp_all
  then show "hd t \<notin> spaceLead" using isDigit_not_space by blast
qed

lemma hex_tok:
  assumes "t \<noteq> []" "list_all isHex t"
  shows "list_all nondelim t" "hd t \<notin> spaceLead"
proof -
  show "list_all nondelim t" using assms(2) isHex_nondelim by (auto simp: list_all_iff simp del: nondelim_simps)
  from assms have "isHex (hd t)" by (cases t) simp_all
  then show "hd t \<notin> spaceLead" using isHex_not_space by blast
qed

lemma parseInt_num:
  assumes "numTok k t" "\<not> nondelim d" "endOK (d # r)"
  shows "parseInt k (ok (t @ d # r)) = (of_nat (decval t), ok (d # r))"
proof -
  from assms(1) have t: "t \<noteq> []" "list_all isDigit t" "decval t < 2 ^ k" by (simp_all add: numTok_def)
  have nt: "nextToken (ok (t @ d # r)) = (t, ok (d # r))"
    using t(1) digits_tok[OF t(1,2)] assms(2,3) by (rule nextToken_token)
  show ?thesis by (simp add: parseInt_ok[OF nt] ParseUint_digits[OF t(1,2)] t(3))
qed

lemma parsePubkey_key:
  assumes "keyTok t" "\<not> nondelim d" "endOK (d # r)"
  shows "parsePubkey (ok (t @ d # r)) = (hexBytes t, ok (d # r))"
proof -
  from assms(1) have t: "length t = 64" "list_all isHex t" by (simp_all add: keyTok_def)
  then have ne: "t \<noteq> []" by auto
  have nt: "nextToken (ok (t @ d # r)) = (t, ok (d # r))"
    using ne hex_tok[OF ne t(2)] assms(2,3) by (rule nextToken_token)
  have "hexDecode (replicate 32 0) 0 t = (hexBytes t, None)"
    using hexDecode_hex[of t 0 "replicate 32 0"] t by simp
  then show ?thesis by (simp add: parsePubkey_def nt t(1))
qed


lemma endOK_delim:
  "d \<notin> spaceTrail \<Longrightarrow> endOK r \<Longrightarrow> endOK (d # r)"
  by (simp add: endOK_Cons)

lemma endOK_tok: "endOK r \<Longrightarrow> r \<noteq> [] \<Longrightarrow> endOK (t @ r)"
  by (simp add: endOK_append)

lemma peek_ok_hd: "s \<noteq> [] \<Longrightarrow> peek (ok s) = hd s"
  by (cases s) simp_all

lemma ucLoop_stop: "ucLoop acc (ok (CHR '']'' # r)) = (acc, ok (CHR '']'' # r))"
  by (subst ucLoop.simps) simp

lemma ucLoop_step:
  assumes "keyTok k" "\<not> nondelim d" "endOK (d # r)"
  shows "ucLoop acc (ok (k @ d # r)) =
     ucLoop (acc @ [hexBytes k]) (if d \<noteq> CHR '']'' then consume CHR '','' (ok (d # r)) else ok (d # r))"
proof -
  from assms(1) have ne: "k \<noteq> []" and hx: "list_all isHex k" by (auto simp: keyTok_def)
  have "nondelim (hd k)" using hex_tok(1)[OF ne hx] ne by (cases k) (simp_all del: nondelim_simps)
  then have pk: "peek (ok (k @ d # r)) \<noteq> CHR '']''" using ne by (simp add: peek_ok_hd)
  show ?thesis
    by (subst ucLoop.simps) (simp add: pk parsePubkey_key[OF assms])
qed

lemma ucLoop_keys:
  "list_all keyTok ks \<Longrightarrow> endOK r \<Longrightarrow>
   ucLoop acc (ok (writeList ks @ CHR '']'' # r)) = (acc @ map hexBytes ks, ok (CHR '']'' # r))"
proof (induction ks arbitrary: acc rule: writeList.induct)
  case 1
  show ?case by (simp add: ucLoop_stop)
next
  case (2 k)
  then have k: "keyTok k" by simp
  have e: "endOK (CHR '']'' # r)" using "2.prems"(2) by (simp add: endOK_delim)
  show ?case using ucLoop_step[OF k _ e, of acc] by (simp add: ucLoop_stop)
next
  case (3 k k' ks)
  then have k: "keyTok k" and ks: "list_all keyTok (k' # ks)" by simp_all
  let ?r = "writeList (k' # ks) @ CHR '']'' # r"
  have e1: "endOK ?r" using "3.prems"(2) by (simp add: endOK_append endOK_delim)
  have e: "endOK (CHR '','' # ?r)" using e1 by (simp add: endOK_delim)
  have "ucLoop acc (ok (k @ CHR '','' # ?r)) = ucLoop (acc @ [hexBytes k]) (ok ?r)"
    using ucLoop_step[OF k _ e, of acc] e by (simp add: consume_delim)
  also have "\<dots> = ((acc @ [hexBytes k]) @ map hexBytes (k' # ks), ok (CHR '']'' # r))"
    using "3.IH"[OF ks "3.prems"(2)] .
  finally show ?case by simp
qed

subsection \<open>The grammar of the textual form\<close>

text \<open>
  The four forms of the textual grammar, as trees over their tokens: a numeric token
  is a non-empty string of decimal digits, a key token a string of 64 hexadecimal
  digits of either case. \<open>render\<close> writes a tree as text, with no white space and
  a comma between the elements of a list; \<open>policy_of\<close> is the policy that the tokens
  denote.
\<close>

datatype policy_text =
    TextAbove string
  | TextPk string
  | TextThresh string "policy_text list"
  | TextUc string "string list" string

fun render :: "policy_text \<Rightarrow> string" where
  "render (TextAbove h) = ''above('' @ h @ '')''"
| "render (TextPk k) = ''pk('' @ k @ '')''"
| "render (TextThresh n ts) = ''thresh('' @ n @ '',['' @ writeList (map render ts) @ ''])''"
| "render (TextUc t ks n) = ''uc('' @ t @ '',['' @ writeList ks @ ''],'' @ n @ '')''"

fun valid_text :: "policy_text \<Rightarrow> bool" where
  "valid_text (TextAbove h) = numTok 64 h"
| "valid_text (TextPk k) = keyTok k"
| "valid_text (TextThresh n ts) = (numTok 8 n \<and> list_all valid_text ts)"
| "valid_text (TextUc t ks n) = (numTok 64 t \<and> list_all keyTok ks \<and> numTok 8 n)"

fun policy_of :: "policy_text \<Rightarrow> SpendPolicy" where
  "policy_of (TextAbove h) = PolicyTypeAbove (of_nat (decval h))"
| "policy_of (TextPk k) = PolicyTypePublicKey (hexBytes k)"
| "policy_of (TextThresh n ts) = PolicyTypeThreshold (of_nat (decval n)) (map policy_of ts)"
| "policy_of (TextUc t ks n) =
     PolicyTypeUnlockConditions (of_nat (decval t)) (map hexBytes ks) (of_nat (decval n))"

lemma render_hd: "\<exists>c s. render t = c # s \<and> c \<in> {CHR ''a'', CHR ''p'', CHR ''t'', CHR ''u''}"
  by (cases t) simp_all

lemma threshLoop_stop: "threshLoop acc (ok (CHR '']'' # r)) = (acc, ok (CHR '']'' # r))"
  by (subst threshLoop.simps) simp

lemma threshLoop_step:
  assumes "parseSpendPolicy (ok (render t @ d # r)) = (policy_of t, ok (d # r))"
  shows "threshLoop acc (ok (render t @ d # r)) =
     threshLoop (acc @ [policy_of t]) (if d \<noteq> CHR '']'' then consume CHR '','' (ok (d # r)) else ok (d # r))"
proof -
  obtain c s where cs: "render t = c # s" "c \<in> {CHR ''a'', CHR ''p'', CHR ''t'', CHR ''u''}"
    using render_hd by blast
  then have pk: "peek (ok (render t @ d # r)) \<noteq> CHR '']''" by auto
  show ?thesis
    by (subst threshLoop.simps) (simp add: pk assms)
qed

lemma threshLoop_texts:
  "(\<And>t d r. t \<in> set ts \<Longrightarrow> endOK (d # r) \<Longrightarrow>
       parseSpendPolicy (ok (render t @ d # r)) = (policy_of t, ok (d # r))) \<Longrightarrow>
   endOK r \<Longrightarrow>
   threshLoop acc (ok (writeList (map render ts) @ CHR '']'' # r)) =
     (acc @ map policy_of ts, ok (CHR '']'' # r))"
proof (induction ts arbitrary: acc)
  case Nil
  show ?case by (simp add: threshLoop_stop)
next
  case (Cons t ts)
  have e: "endOK (CHR '']'' # r)" using Cons.prems(2) by (simp add: endOK_delim)
  show ?case
  proof (cases ts)
    case Nil
    have p: "parseSpendPolicy (ok (render t @ CHR '']'' # r)) = (policy_of t, ok (CHR '']'' # r))"
      using Cons.prems(1)[of t "CHR '']''" r] e by simp
    show ?thesis using threshLoop_step[OF p, of acc] Nil by (simp add: threshLoop_stop)
  next
    case (Cons t' ts')
    let ?r = "writeList (map render ts) @ CHR '']'' # r"
    have ne: "writeList (map render ts) \<noteq> []"
      using Cons render_hd[of t'] by (cases ts') auto
    have e1: "endOK ?r" using e by (simp add: endOK_append)
    have e2: "endOK (CHR '','' # ?r)" using e1 by (simp add: endOK_delim)
    have p: "parseSpendPolicy (ok (render t @ CHR '','' # ?r)) = (policy_of t, ok (CHR '','' # ?r))"
      using Cons.prems(1)[of t "CHR '',''" ?r] e2 by simp
    have "threshLoop acc (ok (render t @ CHR '','' # ?r)) = threshLoop (acc @ [policy_of t]) (ok ?r)"
      using threshLoop_step[OF p, of acc] e2 by (simp add: consume_delim)
    also have "\<dots> = ((acc @ [policy_of t]) @ map policy_of ts, ok (CHR '']'' # r))"
      using Cons.IH[of "acc @ [policy_of t]"] Cons.prems by simp
    finally show ?thesis using Cons by simp
  qed
qed


lemma endOK_close: "endOK rest \<Longrightarrow> endOK (CHR '')'' # rest)"
  by (simp add: endOK_delim)

lemma parse_render:
  "valid_text t \<Longrightarrow> endOK rest \<Longrightarrow>
   parseSpendPolicy (ok (render t @ rest)) = (policy_of t, ok rest)"
proof (induction t arbitrary: rest)
  case (TextAbove h)
  then have h: "numTok 64 h" by simp
  note e = endOK_close[OF TextAbove.prems(2)]
  let ?s2 = "h @ CHR '')'' # rest"
  have e2: "endOK ?s2" using e by (simp add: endOK_append)
  have e1: "endOK (CHR ''('' # ?s2)" using e2 by (simp add: endOK_delim)
  have nt: "nextToken (ok (''above'' @ CHR ''('' # ?s2)) = (''above'', ok (CHR ''('' # ?s2))"
    using e1 by (intro nextToken_token) simp_all
  have c1: "consume CHR ''('' (ok (CHR ''('' # ?s2)) = ok ?s2"
    using e1 by (simp add: consume_delim)
  have pi: "parseInt 64 (ok ?s2) = (of_nat (decval h), ok (CHR '')'' # rest))"
    using h _ e by (rule parseInt_num) simp
  have c2: "consume CHR '')'' (ok (CHR '')'' # rest)) = ok rest"
    using e by (simp add: consume_delim)
  show ?case
    using nt c1 pi c2 by (subst parseSpendPolicy.simps) (simp add: PolicyAbove_def)
next
  case (TextPk k)
  then have k: "keyTok k" by simp
  note e = endOK_close[OF TextPk.prems(2)]
  let ?s2 = "k @ CHR '')'' # rest"
  have e2: "endOK ?s2" using e by (simp add: endOK_append)
  have e1: "endOK (CHR ''('' # ?s2)" using e2 by (simp add: endOK_delim)
  have nt: "nextToken (ok (''pk'' @ CHR ''('' # ?s2)) = (''pk'', ok (CHR ''('' # ?s2))"
    using e1 by (intro nextToken_token) simp_all
  have c1: "consume CHR ''('' (ok (CHR ''('' # ?s2)) = ok ?s2"
    using e1 by (simp add: consume_delim)
  have pp: "parsePubkey (ok ?s2) = (hexBytes k, ok (CHR '')'' # rest))"
    using k _ e by (rule parsePubkey_key) simp
  have c2: "consume CHR '')'' (ok (CHR '')'' # rest)) = ok rest"
    using e by (simp add: consume_delim)
  show ?case
    using nt c1 pp c2 by (subst parseSpendPolicy.simps) (simp add: PolicyPublicKey_def)
next
  case (TextThresh n ts)
  then have n: "numTok 8 n" and vs: "list_all valid_text ts" by simp_all
  note e = endOK_close[OF TextThresh.prems(2)]
  let ?W = "writeList (map render ts)"
  let ?s5 = "CHR '']'' # CHR '')'' # rest"
  let ?s4 = "?W @ ?s5"
  let ?s3 = "CHR '','' # CHR ''['' # ?s4"
  let ?s2 = "n @ ?s3"
  have e5: "endOK ?s5" using e by (simp add: endOK_delim)
  have e4: "endOK ?s4" using e5 by (simp add: endOK_append)
  have e4': "endOK (CHR ''['' # ?s4)" using e4 by (simp add: endOK_delim)
  have e3: "endOK ?s3" using e4' by (simp add: endOK_delim)
  have e2: "endOK ?s2" using e3 by (simp add: endOK_append)
  have e1: "endOK (CHR ''('' # ?s2)" using e2 by (simp add: endOK_delim)
  have nt: "nextToken (ok (''thresh'' @ CHR ''('' # ?s2)) = (''thresh'', ok (CHR ''('' # ?s2))"
    using e1 by (intro nextToken_token) simp_all
  have c1: "consume CHR ''('' (ok (CHR ''('' # ?s2)) = ok ?s2"
    using e1 by (simp add: consume_delim)
  have pi: "parseInt 8 (ok ?s2) = (of_nat (decval n), ok ?s3)"
    using n _ e3 by (rule parseInt_num) simp
  have c2: "consume CHR '','' (ok ?s3) = ok (CHR ''['' # ?s4)"
    using e3 by (simp add: consume_delim)
  have c3: "consume CHR ''['' (ok (CHR ''['' # ?s4)) = ok ?s4"
    using e4' by (simp add: consume_delim)
  have tl: "threshLoop [] (ok ?s4) = ([] @ map policy_of ts, ok ?s5)"
  proof (rule threshLoop_texts)
    fix t d r
    assume "t \<in> set ts" "endOK (d # r)"
    with vs show "parseSpendPolicy (ok (render t @ d # r)) = (policy_of t, ok (d # r))"
      by (intro TextThresh.IH) (simp_all add: list_all_iff)
  qed (rule e)
  have c4: "consume CHR '']'' (ok ?s5) = ok (CHR '')'' # rest)"
    using e5 by (simp add: consume_delim)
  have c5: "consume CHR '')'' (ok (CHR '')'' # rest)) = ok rest"
    using e by (simp add: consume_delim)
  have u: "(ucast (of_nat (decval n) :: 64 word) :: 8 word) = of_nat (decval n)"
    by (simp add: unsigned_of_nat word_of_nat_eq_iff)
  show ?case
    using nt c1 pi c2 c3 tl c4 c5 u by (subst parseSpendPolicy.simps) (simp add: PolicyThreshold_def)
next
  case (TextUc t ks n)
  then have t: "numTok 64 t" and ks: "list_all keyTok ks" and n: "numTok 8 n" by simp_all
  note e = endOK_close[OF TextUc.prems(2)]
  let ?W = "writeList ks"
  let ?s7 = "n @ CHR '')'' # rest"
  let ?s6 = "CHR '','' # ?s7"
  let ?s5 = "CHR '']'' # ?s6"
  let ?s4 = "?W @ ?s5"
  let ?s3 = "CHR '','' # CHR ''['' # ?s4"
  let ?s2 = "t @ ?s3"
  have e7: "endOK ?s7" using e by (simp add: endOK_append)
  have e6: "endOK ?s6" using e7 by (simp add: endOK_delim)
  have e5: "endOK ?s5" using e6 by (simp add: endOK_delim)
  have e4: "endOK ?s4" using e5 by (simp add: endOK_append)
  have e4': "endOK (CHR ''['' # ?s4)" using e4 by (simp add: endOK_delim)
  have e3: "endOK ?s3" using e4' by (simp add: endOK_delim)
  have e2: "endOK ?s2" using e3 by (simp add: endOK_append)
  have e1: "endOK (CHR ''('' # ?s2)" using e2 by (simp add: endOK_delim)
  have nt: "nextToken (ok (''uc'' @ CHR ''('' # ?s2)) = (''uc'', ok (CHR ''('' # ?s2))"
    using e1 by (intro nextToken_token) simp_all
  have c1: "consume CHR ''('' (ok (CHR ''('' # ?s2)) = ok ?s2"
    using e1 by (simp add: consume_delim)
  have pi: "parseInt 64 (ok ?s2) = (of_nat (decval t), ok ?s3)"
    using t _ e3 by (rule parseInt_num) simp
  have c2: "consume CHR '','' (ok ?s3) = ok (CHR ''['' # ?s4)"
    using e3 by (simp add: consume_delim)
  have c3: "consume CHR ''['' (ok (CHR ''['' # ?s4)) = ok ?s4"
    using e4' by (simp add: consume_delim)
  have ul: "ucLoop [] (ok ?s4) = ([] @ map hexBytes ks, ok ?s5)"
    using ks e6 by (rule ucLoop_keys)
  have c4: "consume CHR '']'' (ok ?s5) = ok ?s6"
    using e5 by (simp add: consume_delim)
  have c5: "consume CHR '','' (ok ?s6) = ok ?s7"
    using e6 by (simp add: consume_delim)
  have pi2: "parseInt 8 (ok ?s7) = (of_nat (decval n), ok (CHR '')'' # rest))"
    using n _ e by (rule parseInt_num) simp
  have c6: "consume CHR '')'' (ok (CHR '')'' # rest)) = ok rest"
    using e by (simp add: consume_delim)
  have u: "(ucast (of_nat (decval n) :: 64 word) :: 8 word) = of_nat (decval n)"
    by (simp add: unsigned_of_nat word_of_nat_eq_iff)
  show ?case
    using nt c1 pi c2 c3 ul c4 c5 pi2 c6 u by (subst parseSpendPolicy.simps) simp
qed

subsection \<open>The writer produces texts of the grammar\<close>

lemma ParseSpendPolicy_ok:
  "parseSpendPolicy (ok s) = (p, ok rest) \<Longrightarrow>
   ParseSpendPolicy s = (p, if rest = [] then None else Some (ErrTrailingBytes rest))"
  by (simp add: ParseSpendPolicy_def ok_def[symmetric])

lemma ParseSpendPolicy_bad:
  "parseSpendPolicy (ok s) = (p, bad rest e) \<Longrightarrow> ParseSpendPolicy s = (p, Some e)"
  by (simp add: ParseSpendPolicy_def ok_def[symmetric])

lemma nibble_less: "unat (drop_bit 4 (b :: byte)) < 16" "unat (b AND 0x0f) < 16"
proof -
  have "unat b < 2 ^ 8" using unsigned_less[of b] by simp
  then show "unat (drop_bit 4 b) < 16" by (simp add: drop_bit_eq_div unat_div)
  have "b AND 0x0f \<le> 0x0f" by (rule word_and_le1)
  then show "unat (b AND 0x0f) < 16" by (simp add: word_le_nat_alt)
qed

lemma EncodeToString_Cons:
  "EncodeToString (b # bs) = hextable ! unat (drop_bit 4 b) # hextable ! unat (b AND 0x0f) # EncodeToString bs"
  by (simp add: EncodeToString_def)

lemma EncodeToString_props:
  "length (EncodeToString bs) = 2 * length bs \<and> list_all isHex (EncodeToString bs) \<and>
   hexBytes (EncodeToString bs) = bs"
proof (induction bs)
  case Nil
  show ?case by (simp add: EncodeToString_def)
next
  case (Cons b bs)
  have 1: "fromHexChar (hextable ! unat (drop_bit 4 b)) = Some (drop_bit 4 b)"
    using hextable_nibble[OF nibble_less(1)[of b]] by simp
  have 2: "fromHexChar (hextable ! unat (b AND 0x0f)) = Some (b AND 0x0f)"
    using hextable_nibble[OF nibble_less(2)[of b]] by simp
  show ?case using Cons 1 2 byte_nibbles[of b]
    by (simp add: EncodeToString_Cons isHex_def)
qed

lemma keyTok_EncodeToString: "length pk = 32 \<Longrightarrow> keyTok (EncodeToString pk)"
  using EncodeToString_props[of pk] by (simp add: keyTok_def)

lemma numTok_FormatUint: "n < 2 ^ k \<Longrightarrow> numTok k (FormatUint n)"
  using FormatUint_props[of n] by (simp add: numTok_def)

lemma numTok_u64: "numTok 64 (FormatUint (unat (w :: 64 word)))"
  using unsigned_less[of w, where 'a = nat] by (intro numTok_FormatUint) simp

lemma numTok_u8: "numTok 8 (FormatUint (unat (w :: 8 word)))"
  using unsigned_less[of w, where 'a = nat] by (intro numTok_FormatUint) simp

lemma decval_FormatUint: "decval (FormatUint n) = n"
  using FormatUint_props[of n] by simp

text \<open>
  The policies that the constructors build: no nil \<open>Type\<close> anywhere, every key of 32 bytes.
\<close>

fun constructible :: "SpendPolicy \<Rightarrow> bool" where
  "constructible NilPolicy = False"
| "constructible (PolicyTypeAbove h) = True"
| "constructible (PolicyTypePublicKey pk) = (length pk = 32)"
| "constructible (PolicyTypeThreshold n ps) = list_all constructible ps"
| "constructible (PolicyTypeUnlockConditions t pks n) = list_all (\<lambda>pk. length pk = 32) pks"

fun text_of :: "SpendPolicy \<Rightarrow> policy_text" where
  "text_of NilPolicy = TextAbove []"
| "text_of (PolicyTypeAbove h) = TextAbove (FormatUint (unat h))"
| "text_of (PolicyTypePublicKey pk) = TextPk (EncodeToString pk)"
| "text_of (PolicyTypeThreshold n ps) = TextThresh (FormatUint (unat n)) (map text_of ps)"
| "text_of (PolicyTypeUnlockConditions t pks n) =
     TextUc (FormatUint (unat t)) (map EncodeToString pks) (FormatUint (unat n))"

lemma text_of_props:
  "constructible p \<Longrightarrow>
   render (text_of p) = String p \<and> valid_text (text_of p) \<and> policy_of (text_of p) = p"
proof (induction p)
  case NilPolicy
  then show ?case by simp
next
  case (PolicyTypeAbove h)
  show ?case by (simp add: numTok_u64 decval_FormatUint)
next
  case (PolicyTypePublicKey pk)
  then show ?case using EncodeToString_props[of pk] by (simp add: keyTok_EncodeToString)
next
  case (PolicyTypeThreshold n ps)
  then have IH: "\<And>x. x \<in> set ps \<Longrightarrow>
      render (text_of x) = String x \<and> valid_text (text_of x) \<and> policy_of (text_of x) = x"
    by (simp add: list_all_iff)
  have 1: "map (render \<circ> text_of) ps = map String ps" using IH by simp
  have 2: "list_all valid_text (map text_of ps)" using IH by (simp add: list_all_iff)
  have 3: "map (policy_of \<circ> text_of) ps = ps" using IH by (simp add: map_idI)
  show ?case by (simp add: 1 2 3 numTok_u8 decval_FormatUint)
next
  case (PolicyTypeUnlockConditions t pks n)
  then have k: "\<And>pk. pk \<in> set pks \<Longrightarrow> length pk = 32" by (simp add: list_all_iff)
  have 2: "list_all keyTok (map EncodeToString pks)"
    using k by (simp add: list_all_iff keyTok_EncodeToString)
  have 3: "map (hexBytes \<circ> EncodeToString) pks = pks"
    using EncodeToString_props by (simp add: map_idI)
  show ?case by (simp add: 2 3 numTok_u64 numTok_u8 decval_FormatUint)
qed

lemma endOK_Nil [simp]: "endOK []"
  by (simp add: endOK_def)

text \<open>
  C1. For every policy \<open>p\<close> that the constructors build (\<open>PolicyAbove\<close>,
  \<open>PolicyPublicKey\<close>, \<open>PolicyThreshold\<close> with any nesting, \<open>AnyoneCanSpend\<close>, and the
  unlock conditions), parsing the string of \<open>p\<close> succeeds: it returns no error, and the
  policy it returns is \<open>p\<close>.
\<close>

theorem parse_String_roundtrip:
  "constructible p \<Longrightarrow> ParseSpendPolicy (String p) = (p, None)"
proof -
  assume c: "constructible p"
  note tp = text_of_props[OF c]
  have "parseSpendPolicy (ok (render (text_of p) @ [])) = (policy_of (text_of p), ok [])"
    using tp by (intro parse_render) simp_all
  then have "parseSpendPolicy (ok (String p)) = (p, ok [])" using tp by simp
  then show ?thesis by (simp add: ParseSpendPolicy_ok)
qed

theorem parse_String_roundtrip_witness:
  "constructible (PolicyThreshold 1 [PolicyAbove 100, AnyoneCanSpend,
       PolicyPublicKey (replicate 32 0xAB),
       PolicyTypeUnlockConditions 7 [replicate 32 1, replicate 32 2] 2]) \<and>
   ParseSpendPolicy (String (PolicyThreshold 1 [PolicyAbove 100, AnyoneCanSpend,
       PolicyPublicKey (replicate 32 0xAB),
       PolicyTypeUnlockConditions 7 [replicate 32 1, replicate 32 2] 2])) =
     (PolicyThreshold 1 [PolicyAbove 100, AnyoneCanSpend,
       PolicyPublicKey (replicate 32 0xAB),
       PolicyTypeUnlockConditions 7 [replicate 32 1, replicate 32 2] 2], None)"
proof -
  have c: "constructible (PolicyThreshold 1 [PolicyAbove 100, AnyoneCanSpend,
       PolicyPublicKey (replicate 32 0xAB),
       PolicyTypeUnlockConditions 7 [replicate 32 1, replicate 32 2] 2])"
    by (simp add: PolicyThreshold_def PolicyAbove_def AnyoneCanSpend_def PolicyPublicKey_def)
  show ?thesis using c parse_String_roundtrip[OF c] by simp
qed

subsection \<open>The frames of the two list forms\<close>

lemma parse_thresh_frame:
  assumes n: "numTok 8 n" and e: "endOK rest"
    and tl: "threshLoop [] (ok (X @ CHR '']'' # CHR '')'' # rest)) = (ps, ok (CHR '']'' # CHR '')'' # rest))"
  shows "parseSpendPolicy (ok (''thresh('' @ n @ '',['' @ X @ ''])'' @ rest)) =
           (PolicyTypeThreshold (of_nat (decval n)) ps, ok rest)"
proof -
  note e = endOK_close[OF e]
  let ?s5 = "CHR '']'' # CHR '')'' # rest"
  let ?s4 = "X @ ?s5"
  let ?s3 = "CHR '','' # CHR ''['' # ?s4"
  let ?s2 = "n @ ?s3"
  have e5: "endOK ?s5" using e by (simp add: endOK_delim)
  have e4: "endOK ?s4" using e5 by (simp add: endOK_append)
  have e4': "endOK (CHR ''['' # ?s4)" using e4 by (simp add: endOK_delim)
  have e3: "endOK ?s3" using e4' by (simp add: endOK_delim)
  have e2: "endOK ?s2" using e3 by (simp add: endOK_append)
  have e1: "endOK (CHR ''('' # ?s2)" using e2 by (simp add: endOK_delim)
  have nt: "nextToken (ok (''thresh'' @ CHR ''('' # ?s2)) = (''thresh'', ok (CHR ''('' # ?s2))"
    using e1 by (intro nextToken_token) simp_all
  have c1: "consume CHR ''('' (ok (CHR ''('' # ?s2)) = ok ?s2"
    using e1 by (simp add: consume_delim)
  have pi: "parseInt 8 (ok ?s2) = (of_nat (decval n), ok ?s3)"
    using n _ e3 by (rule parseInt_num) simp
  have c2: "consume CHR '','' (ok ?s3) = ok (CHR ''['' # ?s4)"
    using e3 by (simp add: consume_delim)
  have c3: "consume CHR ''['' (ok (CHR ''['' # ?s4)) = ok ?s4"
    using e4' by (simp add: consume_delim)
  have c4: "consume CHR '']'' (ok ?s5) = ok (CHR '')'' # rest)"
    using e5 by (simp add: consume_delim)
  have c5: "consume CHR '')'' (ok (CHR '')'' # rest)) = ok rest"
    using e by (simp add: consume_delim)
  have u: "(ucast (of_nat (decval n) :: 64 word) :: 8 word) = of_nat (decval n)"
    by (simp add: unsigned_of_nat word_of_nat_eq_iff)
  show ?thesis
    using nt c1 pi c2 c3 tl c4 c5 u by (subst parseSpendPolicy.simps) (simp add: PolicyThreshold_def)
qed

lemma parse_uc_frame:
  assumes t: "numTok 64 t" and n: "numTok 8 n" and e: "endOK rest"
    and ul: "ucLoop [] (ok (X @ CHR '']'' # CHR '','' # n @ CHR '')'' # rest)) =
               (pks, ok (CHR '']'' # CHR '','' # n @ CHR '')'' # rest))"
  shows "parseSpendPolicy (ok (''uc('' @ t @ '',['' @ X @ ''],'' @ n @ '')'' @ rest)) =
           (PolicyTypeUnlockConditions (of_nat (decval t)) pks (of_nat (decval n)), ok rest)"
proof -
  note e = endOK_close[OF e]
  let ?s7 = "n @ CHR '')'' # rest"
  let ?s6 = "CHR '','' # ?s7"
  let ?s5 = "CHR '']'' # ?s6"
  let ?s4 = "X @ ?s5"
  let ?s3 = "CHR '','' # CHR ''['' # ?s4"
  let ?s2 = "t @ ?s3"
  have e7: "endOK ?s7" using e by (simp add: endOK_append)
  have e6: "endOK ?s6" using e7 by (simp add: endOK_delim)
  have e5: "endOK ?s5" using e6 by (simp add: endOK_delim)
  have e4: "endOK ?s4" using e5 by (simp add: endOK_append)
  have e4': "endOK (CHR ''['' # ?s4)" using e4 by (simp add: endOK_delim)
  have e3: "endOK ?s3" using e4' by (simp add: endOK_delim)
  have e2: "endOK ?s2" using e3 by (simp add: endOK_append)
  have e1: "endOK (CHR ''('' # ?s2)" using e2 by (simp add: endOK_delim)
  have nt: "nextToken (ok (''uc'' @ CHR ''('' # ?s2)) = (''uc'', ok (CHR ''('' # ?s2))"
    using e1 by (intro nextToken_token) simp_all
  have c1: "consume CHR ''('' (ok (CHR ''('' # ?s2)) = ok ?s2"
    using e1 by (simp add: consume_delim)
  have pi: "parseInt 64 (ok ?s2) = (of_nat (decval t), ok ?s3)"
    using t _ e3 by (rule parseInt_num) simp
  have c2: "consume CHR '','' (ok ?s3) = ok (CHR ''['' # ?s4)"
    using e3 by (simp add: consume_delim)
  have c3: "consume CHR ''['' (ok (CHR ''['' # ?s4)) = ok ?s4"
    using e4' by (simp add: consume_delim)
  have c4: "consume CHR '']'' (ok ?s5) = ok ?s6"
    using e5 by (simp add: consume_delim)
  have c5: "consume CHR '','' (ok ?s6) = ok ?s7"
    using e6 by (simp add: consume_delim)
  have pi2: "parseInt 8 (ok ?s7) = (of_nat (decval n), ok (CHR '')'' # rest))"
    using n _ e by (rule parseInt_num) simp
  have c6: "consume CHR '')'' (ok (CHR '')'' # rest)) = ok rest"
    using e by (simp add: consume_delim)
  have u: "(ucast (of_nat (decval n) :: 64 word) :: 8 word) = of_nat (decval n)"
    by (simp add: unsigned_of_nat word_of_nat_eq_iff)
  show ?thesis
    using nt c1 pi c2 c3 ul c4 c5 pi2 c6 u by (subst parseSpendPolicy.simps) simp
qed

subsection \<open>A comma before the closing bracket\<close>

lemma writeList_ne: "xs \<noteq> [] \<Longrightarrow> (\<And>x. x \<in> set xs \<Longrightarrow> x \<noteq> []) \<Longrightarrow> writeList xs \<noteq> []"
  by (induction xs rule: writeList.induct) auto

lemma threshLoop_texts_comma:
  "list_all valid_text ts \<Longrightarrow> ts \<noteq> [] \<Longrightarrow> endOK r \<Longrightarrow>
   threshLoop acc (ok (writeList (map render ts) @ CHR '','' # CHR '']'' # r)) =
     (acc @ map policy_of ts, ok (CHR '']'' # r))"
proof (induction ts arbitrary: acc)
  case Nil
  then show ?case by simp
next
  case (Cons t ts)
  then have vt: "valid_text t" and vs: "list_all valid_text ts" by simp_all
  have e: "endOK (CHR '']'' # r)" using Cons.prems(3) by (simp add: endOK_delim)
  have ec: "endOK (CHR '','' # CHR '']'' # r)" using e by (simp add: endOK_delim)
  show ?case
  proof (cases ts)
    case Nil
    have p: "parseSpendPolicy (ok (render t @ CHR '','' # CHR '']'' # r)) =
        (policy_of t, ok (CHR '','' # CHR '']'' # r))"
      using vt ec by (rule parse_render)
    show ?thesis using threshLoop_step[OF p, of acc] Nil ec
      by (simp add: threshLoop_stop consume_delim)
  next
    case (Cons t' ts')
    let ?r = "writeList (map render ts) @ CHR '','' # CHR '']'' # r"
    have e1: "endOK ?r" using ec by (simp add: endOK_append)
    have e2: "endOK (CHR '','' # ?r)" using e1 by (simp add: endOK_delim)
    have p: "parseSpendPolicy (ok (render t @ CHR '','' # ?r)) = (policy_of t, ok (CHR '','' # ?r))"
      using vt e2 by (rule parse_render)
    have "threshLoop acc (ok (render t @ CHR '','' # ?r)) = threshLoop (acc @ [policy_of t]) (ok ?r)"
      using threshLoop_step[OF p, of acc] e2 by (simp add: consume_delim)
    also have "\<dots> = ((acc @ [policy_of t]) @ map policy_of ts, ok (CHR '']'' # r))"
      using Cons.IH[of "acc @ [policy_of t]"] vs Cons Cons.prems(3) by simp
    finally show ?thesis using Cons by simp
  qed
qed

lemma ucLoop_keys_comma:
  "list_all keyTok ks \<Longrightarrow> ks \<noteq> [] \<Longrightarrow> endOK r \<Longrightarrow>
   ucLoop acc (ok (writeList ks @ CHR '','' # CHR '']'' # r)) = (acc @ map hexBytes ks, ok (CHR '']'' # r))"
proof (induction ks arbitrary: acc rule: writeList.induct)
  case 1
  then show ?case by simp
next
  case (2 k)
  then have k: "keyTok k" by simp
  have e: "endOK (CHR '']'' # r)" using "2.prems"(3) by (simp add: endOK_delim)
  have ec: "endOK (CHR '','' # CHR '']'' # r)" using e by (simp add: endOK_delim)
  show ?case using ucLoop_step[OF k _ ec, of acc] ec by (simp add: ucLoop_stop consume_delim)
next
  case (3 k k' ks)
  then have k: "keyTok k" and ks: "list_all keyTok (k' # ks)" by simp_all
  let ?r = "writeList (k' # ks) @ CHR '','' # CHR '']'' # r"
  have e1: "endOK ?r" using "3.prems"(3) by (simp add: endOK_append endOK_delim)
  have e: "endOK (CHR '','' # ?r)" using e1 by (simp add: endOK_delim)
  have "ucLoop acc (ok (k @ CHR '','' # ?r)) = ucLoop (acc @ [hexBytes k]) (ok ?r)"
    using ucLoop_step[OF k _ e, of acc] e by (simp add: consume_delim)
  also have "\<dots> = ((acc @ [hexBytes k]) @ map hexBytes (k' # ks), ok (CHR '']'' # r))"
    using "3.IH"[OF ks _ "3.prems"(3)] by simp
  finally show ?case by simp
qed

lemma parse_render_top:
  "valid_text t \<Longrightarrow> ParseSpendPolicy (render t) = (policy_of t, None)"
  using parse_render[of t "[]"] ParseSpendPolicy_ok[of "render t" "policy_of t" "[]"] by simp

text \<open>
  C10. The parser accepts one comma before the closing bracket of a non-empty threshold
  list or key list: the text with the extra comma parses, with no error, to the policy
  that the text without it parses to. The writer never puts a comma there.
\<close>

theorem trailing_comma_accepted:
  "(numTok 8 n \<and> list_all valid_text ts \<and> ts \<noteq> [] \<longrightarrow>
      ParseSpendPolicy (''thresh('' @ n @ '',['' @ writeList (map render ts) @ '',])'') =
        (policy_of (TextThresh n ts), None) \<and>
      ParseSpendPolicy (''thresh('' @ n @ '',['' @ writeList (map render ts) @ ''])'') =
        (policy_of (TextThresh n ts), None)) \<and>
   (numTok 64 t \<and> list_all keyTok ks \<and> ks \<noteq> [] \<and> numTok 8 m \<longrightarrow>
      ParseSpendPolicy (''uc('' @ t @ '',['' @ writeList ks @ '',],'' @ m @ '')'') =
        (policy_of (TextUc t ks m), None) \<and>
      ParseSpendPolicy (''uc('' @ t @ '',['' @ writeList ks @ ''],'' @ m @ '')'') =
        (policy_of (TextUc t ks m), None))"
proof (intro conjI impI)
  assume a: "numTok 8 n \<and> list_all valid_text ts \<and> ts \<noteq> []"
  have tl: "threshLoop [] (ok ((writeList (map render ts) @ '','') @ CHR '']'' # CHR '')'' # [])) =
      ([] @ map policy_of ts, ok (CHR '']'' # CHR '')'' # []))"
    using threshLoop_texts_comma[of ts "CHR '')'' # []" "[]"] a by (simp add: endOK_close)
  have "parseSpendPolicy (ok (''thresh('' @ n @ '',['' @ (writeList (map render ts) @ '','') @ ''])'' @ [])) =
      (PolicyTypeThreshold (of_nat (decval n)) ([] @ map policy_of ts), ok [])"
    using a tl by (intro parse_thresh_frame) simp_all
  then show "ParseSpendPolicy (''thresh('' @ n @ '',['' @ writeList (map render ts) @ '',])'') =
        (policy_of (TextThresh n ts), None)"
    using ParseSpendPolicy_ok[of "''thresh('' @ n @ '',['' @ writeList (map render ts) @ '',])''" _ "[]"]
    by simp
  show "ParseSpendPolicy (''thresh('' @ n @ '',['' @ writeList (map render ts) @ ''])'') =
        (policy_of (TextThresh n ts), None)"
    using parse_render_top[of "TextThresh n ts"] a by simp
next
  assume a: "numTok 64 t \<and> list_all keyTok ks \<and> ks \<noteq> [] \<and> numTok 8 m"
  have em: "endOK (CHR '','' # m @ CHR '')'' # [])"
    by (simp add: endOK_delim endOK_append endOK_close)
  have ul: "ucLoop [] (ok ((writeList ks @ '','') @ CHR '']'' # CHR '','' # m @ CHR '')'' # [])) =
      ([] @ map hexBytes ks, ok (CHR '']'' # CHR '','' # m @ CHR '')'' # []))"
    using ucLoop_keys_comma[of ks "CHR '','' # m @ CHR '')'' # []" "[]"] a em by simp
  have "parseSpendPolicy (ok (''uc('' @ t @ '',['' @ (writeList ks @ '','') @ ''],'' @ m @ '')'' @ [])) =
      (PolicyTypeUnlockConditions (of_nat (decval t)) ([] @ map hexBytes ks) (of_nat (decval m)), ok [])"
    using a ul by (intro parse_uc_frame) simp_all
  then show "ParseSpendPolicy (''uc('' @ t @ '',['' @ writeList ks @ '',],'' @ m @ '')'') =
        (policy_of (TextUc t ks m), None)"
    using ParseSpendPolicy_ok[of "''uc('' @ t @ '',['' @ writeList ks @ '',],'' @ m @ '')''" _ "[]"]
    by simp
  show "ParseSpendPolicy (''uc('' @ t @ '',['' @ writeList ks @ ''],'' @ m @ '')'') =
        (policy_of (TextUc t ks m), None)"
    using parse_render_top[of "TextUc t ks m"] a by simp
qed

lemma digitChar_simps:
  "digitChar 0 = CHR ''0''" "digitChar 1 = CHR ''1''" "digitChar 2 = CHR ''2''"
  "digitChar 3 = CHR ''3''" "digitChar 4 = CHR ''4''" "digitChar 5 = CHR ''5''"
  "digitChar 6 = CHR ''6''" "digitChar 7 = CHR ''7''" "digitChar 8 = CHR ''8''"
  "digitChar 9 = CHR ''9''" "digitChar (Suc 0) = CHR ''1''"
  by (simp_all add: digitChar_def char_of_eq_iff)

lemma numTok_1: "numTok 8 ''1''" "numTok 64 ''1''"
  by (simp_all add: numTok_def decval_def isDigit_def digitVal_def)

theorem trailing_comma_accepted_witness:
  "ParseSpendPolicy ''thresh(1,[above(1),])'' = (PolicyTypeThreshold 1 [PolicyTypeAbove 1], None) \<and>
   ParseSpendPolicy ''thresh(1,[above(1)])'' = (PolicyTypeThreshold 1 [PolicyTypeAbove 1], None) \<and>
   String (PolicyTypeThreshold 1 [PolicyTypeAbove 1]) \<noteq> ''thresh(1,[above(1),])''"
proof -
  have s: "String (PolicyTypeThreshold 1 [PolicyTypeAbove 1]) = ''thresh(1,[above(1)])''"
    by (simp add: FormatUint.simps digitChar_simps)
  show ?thesis
    using trailing_comma_accepted[of "''1''" "[TextAbove ''1'']" "''1''" "[]" "''1''"] numTok_1 s
    by (simp add: decval_def digitVal_def)
qed

subsection \<open>Text left over\<close>

lemma numTok_5: "numTok 64 ''5''"
  by (simp add: numTok_def decval_def isDigit_def digitVal_def)

text \<open>
  C7. Whenever the top-level policy has been parsed with no error and text is left
  over, \<open>ParseSpendPolicy\<close> returns the trailing-bytes error with that text. So a
  complete policy text followed by any non-empty text (that does not end in white
  space, which the first \<open>TrimSpace\<close> would remove) is rejected.
\<close>

theorem trailing_bytes_rejected:
  "(parseSpendPolicy \<lparr>str = s, err = None\<rparr> = (p, st) \<and> err st = None \<and> str st \<noteq> [] \<longrightarrow>
      ParseSpendPolicy s = (p, Some (ErrTrailingBytes (str st)))) \<and>
   (valid_text t \<and> endOK rest \<and> rest \<noteq> [] \<longrightarrow>
      ParseSpendPolicy (render t @ rest) = (policy_of t, Some (ErrTrailingBytes rest)))"
proof (intro conjI impI)
  assume "parseSpendPolicy \<lparr>str = s, err = None\<rparr> = (p, st) \<and> err st = None \<and> str st \<noteq> []"
  then show "ParseSpendPolicy s = (p, Some (ErrTrailingBytes (str st)))"
    by (simp add: ParseSpendPolicy_def)
next
  assume a: "valid_text t \<and> endOK rest \<and> rest \<noteq> []"
  then have "parseSpendPolicy (ok (render t @ rest)) = (policy_of t, ok rest)"
    by (intro parse_render) simp_all
  with a show "ParseSpendPolicy (render t @ rest) = (policy_of t, Some (ErrTrailingBytes rest))"
    by (simp add: ParseSpendPolicy_ok)
qed

theorem trailing_bytes_rejected_witness:
  "ParseSpendPolicy ''above(5)xyz'' = (PolicyTypeAbove 5, Some (ErrTrailingBytes ''xyz''))"
proof -
  have e: "endOK ''xyz''" by (simp add: endOK_def spaceTrail_def)
  show ?thesis
    using trailing_bytes_rejected[of _ _ _ "TextAbove ''5''" "''xyz''"] numTok_5 e
    by (simp add: decval_def digitVal_def)
qed

subsection \<open>Malformed keys and the sticky error\<close>





lemma parse_pk_frame:
  assumes "parsePubkey (ok (t @ CHR '')'' # rest)) = (pk, st)" "endOK rest"
  shows "parseSpendPolicy (ok (''pk('' @ t @ '')'' @ rest)) = (PolicyTypePublicKey pk, consume CHR '')'' st)"
proof -
  note e = endOK_close[OF assms(2)]
  let ?s2 = "t @ CHR '')'' # rest"
  have e2: "endOK ?s2" using e by (simp add: endOK_append)
  have e1: "endOK (CHR ''('' # ?s2)" using e2 by (simp add: endOK_delim)
  have nt: "nextToken (ok (''pk'' @ CHR ''('' # ?s2)) = (''pk'', ok (CHR ''('' # ?s2))"
    using e1 by (intro nextToken_token) simp_all
  have c1: "consume CHR ''('' (ok (CHR ''('' # ?s2)) = ok ?s2"
    using e1 by (simp add: consume_delim)
  show ?thesis
    using nt c1 assms(1) by (subst parseSpendPolicy.simps) (simp add: PolicyPublicKey_def)
qed

lemma state_cases: "st = ok (str st) \<or> (\<exists>e. st = bad (str st) e)"
  by (cases st) (auto simp: ok_def bad_def)

subsection \<open>The parser after the keyword and the opening parenthesis\<close>

lemma parse_keyword:
  assumes "kw \<in> {''above'', ''pk'', ''thresh'', ''uc''}" "endOK Y"
  shows "nextToken (ok (kw @ CHR ''('' # Y)) = (kw, ok (CHR ''('' # Y))"
    and "consume CHR ''('' (ok (CHR ''('' # Y)) = ok Y"
proof -
  have e1: "endOK (CHR ''('' # Y)" using assms(2) by (simp add: endOK_delim)
  show "nextToken (ok (kw @ CHR ''('' # Y)) = (kw, ok (CHR ''('' # Y))"
    using assms(1) e1 by (intro nextToken_token) auto
  show "consume CHR ''('' (ok (CHR ''('' # Y)) = ok Y"
    using e1 by (simp add: consume_delim)
qed

lemma parse_kw_above:
  "endOK Y \<Longrightarrow> parseSpendPolicy (ok (''above('' @ Y)) =
     (case parseInt 64 (ok Y) of (h, st3) \<Rightarrow> (PolicyTypeAbove h, consume CHR '')'' st3))"
  using parse_keyword[of "''above''" Y]
  by (subst parseSpendPolicy.simps) (simp add: PolicyAbove_def)


lemma parse_kw_thresh:
  "endOK Y \<Longrightarrow> parseSpendPolicy (ok (''thresh('' @ Y)) =
     (case parseInt 8 (ok Y) of (n, st3) \<Rightarrow>
        (case threshLoop [] (consume CHR ''['' (consume CHR '','' st3)) of (ps, st4) \<Rightarrow>
           (PolicyTypeThreshold (ucast n) ps, consume CHR '')'' (consume CHR '']'' st4))))"
  using parse_keyword[of "''thresh''" Y]
  by (subst parseSpendPolicy.simps) (simp add: PolicyThreshold_def)

lemma parse_kw_uc:
  "endOK Y \<Longrightarrow> parseSpendPolicy (ok (''uc('' @ Y)) =
     (case parseInt 64 (ok Y) of (timelock, st3) \<Rightarrow>
        (case ucLoop [] (consume CHR ''['' (consume CHR '','' st3)) of (pks, st4) \<Rightarrow>
           (case parseInt 8 (consume CHR '','' (consume CHR '']'' st4)) of (sigs, st5) \<Rightarrow>
              (PolicyTypeUnlockConditions timelock pks (ucast sigs), consume CHR '')'' st5))))"
  using parse_keyword[of "''uc''" Y]
  by (subst parseSpendPolicy.simps) simp

lemma parseInt_range:
  assumes "t \<noteq> []" "list_all isDigit t" "2 ^ k \<le> decval t" "\<not> nondelim d" "endOK (d # r)"
  shows "parseInt k (ok (t @ d # r)) = (of_nat (2 ^ k - 1), bad (d # r) ErrRange)"
proof -
  have nt: "nextToken (ok (t @ d # r)) = (t, ok (d # r))"
    using assms(1) digits_tok[OF assms(1,2)] assms(4,5) by (rule nextToken_token)
  show ?thesis using assms(3) by (simp add: parseInt_ok[OF nt] ParseUint_digits[OF assms(1,2)])
qed


subsection \<open>Malformed keys\<close>






subsection \<open>Numeric fields above their ceiling\<close>

text \<open>
  Texts of the grammar whose numeric fields are digit strings of any value: the value may
  exceed the ceiling of its field.
\<close>

definition digTok :: "string \<Rightarrow> bool" where
  "digTok t = (t \<noteq> [] \<and> list_all isDigit t)"

fun digit_text :: "policy_text \<Rightarrow> bool" where
  "digit_text (TextAbove h) = digTok h"
| "digit_text (TextPk k) = keyTok k"
| "digit_text (TextThresh n ts) = (digTok n \<and> list_all digit_text ts)"
| "digit_text (TextUc t ks n) = (digTok t \<and> list_all keyTok ks \<and> digTok n)"

lemma numTok_iff: "numTok k t = (digTok t \<and> decval t < 2 ^ k)"
  by (auto simp: numTok_def digTok_def)

lemma parseInt_over:
  assumes "digTok t" "\<not> numTok k t" "\<not> nondelim d" "endOK (d # r)"
  shows "parseInt k (ok (t @ d # r)) = (of_nat (2 ^ k - 1), bad (d # r) ErrRange)"
  using assms by (intro parseInt_range) (simp_all add: numTok_iff digTok_def)

lemma writeList_Cons:
  "writeList (x # xs) = x @ (if xs = [] then [] else CHR '','' # writeList xs)"
  by (cases xs) simp_all

lemma threshLoop_range:
  assumes IH: "\<And>t rest. t \<in> set ts \<Longrightarrow> digit_text t \<Longrightarrow> \<not> valid_text t \<Longrightarrow> endOK rest \<Longrightarrow>
      \<exists>p r. parseSpendPolicy (ok (render t @ rest)) = (p, bad r ErrRange)"
  shows "list_all digit_text ts \<Longrightarrow> \<not> list_all valid_text ts \<Longrightarrow> endOK r \<Longrightarrow>
    \<exists>ps r'. threshLoop acc (ok (writeList (map render ts) @ CHR '']'' # r)) = (ps, bad r' ErrRange)"
  using IH
proof (induction ts arbitrary: acc)
  case Nil
  then show ?case by simp
next
  case (Cons t ts)
  let ?R = "(if ts = [] then [] else CHR '','' # writeList (map render ts)) @ CHR '']'' # r"
  have s: "writeList (map render (t # ts)) @ CHR '']'' # r = render t @ ?R"
    by (simp add: writeList_Cons)
  have e: "endOK (CHR '']'' # r)" using Cons.prems(3) by (simp add: endOK_delim)
  have eR: "endOK ?R" using e by (simp add: endOK_append endOK_Cons)
  obtain c s' where cs: "render t = c # s'" "c \<in> {CHR ''a'', CHR ''p'', CHR ''t'', CHR ''u''}"
    using render_hd by blast
  then have pk: "peek (ok (render t @ ?R)) \<noteq> CHR '']''" by auto
  show ?case
  proof (cases "valid_text t")
    case False
    from Cons.prems(4)[of t ?R] Cons.prems(1) False eR
    obtain p r' where p: "parseSpendPolicy (ok (render t @ ?R)) = (p, bad r' ErrRange)" by auto
    have "threshLoop acc (ok (render t @ ?R)) = (acc @ [p], bad r' ErrRange)"
      using pk p by (subst threshLoop.simps) (simp add: threshLoop_bad)
    then show ?thesis unfolding s by blast
  next
    case True
    with Cons.prems(2) have nv: "\<not> list_all valid_text ts" by simp
    then have ne: "ts \<noteq> []" by auto
    let ?r = "writeList (map render ts) @ CHR '']'' # r"
    have R: "?R = CHR '','' # ?r" using ne by simp
    have e2: "endOK (CHR '','' # ?r)" using eR R by simp
    have p: "parseSpendPolicy (ok (render t @ CHR '','' # ?r)) = (policy_of t, ok (CHR '','' # ?r))"
      using True e2 by (rule parse_render)
    have st: "threshLoop acc (ok (render t @ CHR '','' # ?r)) = threshLoop (acc @ [policy_of t]) (ok ?r)"
      using threshLoop_step[OF p, of acc] e2 by (simp add: consume_delim)
    from Cons.IH[of "acc @ [policy_of t]"] Cons.prems nv
    obtain ps r' where "threshLoop (acc @ [policy_of t]) (ok ?r) = (ps, bad r' ErrRange)"
      by auto
    with st show ?thesis unfolding s R by auto
  qed
qed

lemma parse_range:
  "digit_text t \<Longrightarrow> \<not> valid_text t \<Longrightarrow> endOK rest \<Longrightarrow>
   \<exists>p r. parseSpendPolicy (ok (render t @ rest)) = (p, bad r ErrRange)"
proof (induction t arbitrary: rest)
  case (TextAbove h)
  note e = endOK_close[OF TextAbove.prems(3)]
  have eY: "endOK (h @ CHR '')'' # rest)" using e by (simp add: endOK_append)
  have pi: "parseInt 64 (ok (h @ CHR '')'' # rest)) = (of_nat (2 ^ 64 - 1), bad (CHR '')'' # rest) ErrRange)"
    using TextAbove.prems e by (intro parseInt_over) simp_all
  show ?case using parse_kw_above[OF eY] pi by auto
next
  case (TextPk k)
  then show ?case by simp
next
  case (TextThresh n ts)
  note e = endOK_close[OF TextThresh.prems(3)]
  let ?s5 = "CHR '']'' # CHR '')'' # rest"
  let ?s4 = "writeList (map render ts) @ ?s5"
  let ?s3 = "CHR '','' # CHR ''['' # ?s4"
  have e5: "endOK ?s5" using e by (simp add: endOK_delim)
  have e4: "endOK ?s4" using e5 by (simp add: endOK_append)
  have e4': "endOK (CHR ''['' # ?s4)" using e4 by (simp add: endOK_delim)
  have e3: "endOK ?s3" using e4' by (simp add: endOK_delim)
  have eY: "endOK (n @ ?s3)" using e3 by (simp add: endOK_append)
  from TextThresh.prems have dn: "digTok n" and ds: "list_all digit_text ts" by simp_all
  show ?case
  proof (cases "numTok 8 n")
    case False
    have pi: "parseInt 8 (ok (n @ ?s3)) = (of_nat (2 ^ 8 - 1), bad ?s3 ErrRange)"
      using dn False _ e3 by (rule parseInt_over) simp
    show ?thesis using parse_kw_thresh[OF eY] pi by (auto simp add: threshLoop_bad)
  next
    case True
    with TextThresh.prems have nv: "\<not> list_all valid_text ts" by simp
    have pi: "parseInt 8 (ok (n @ ?s3)) = (of_nat (decval n), ok ?s3)"
      using True _ e3 by (rule parseInt_num) simp
    have c2: "consume CHR '','' (ok ?s3) = ok (CHR ''['' # ?s4)"
      using e3 by (simp add: consume_delim)
    have c3: "consume CHR ''['' (ok (CHR ''['' # ?s4)) = ok ?s4"
      using e4' by (simp add: consume_delim)
    obtain ps r' where tl: "threshLoop [] (ok ?s4) = (ps, bad r' ErrRange)"
      using threshLoop_range[of ts "CHR '')'' # rest" "[]"] TextThresh.IH ds nv e by blast
    show ?thesis using parse_kw_thresh[OF eY] pi c2 c3 tl by auto
  qed
next
  case (TextUc t ks n)
  note e = endOK_close[OF TextUc.prems(3)]
  let ?s7 = "n @ CHR '')'' # rest"
  let ?s6 = "CHR '','' # ?s7"
  let ?s5 = "CHR '']'' # ?s6"
  let ?s4 = "writeList ks @ ?s5"
  let ?s3 = "CHR '','' # CHR ''['' # ?s4"
  have e7: "endOK ?s7" using e by (simp add: endOK_append)
  have e6: "endOK ?s6" using e7 by (simp add: endOK_delim)
  have e5: "endOK ?s5" using e6 by (simp add: endOK_delim)
  have e4: "endOK ?s4" using e5 by (simp add: endOK_append)
  have e4': "endOK (CHR ''['' # ?s4)" using e4 by (simp add: endOK_delim)
  have e3: "endOK ?s3" using e4' by (simp add: endOK_delim)
  have eY: "endOK (t @ ?s3)" using e3 by (simp add: endOK_append)
  from TextUc.prems have dt: "digTok t" and ks: "list_all keyTok ks" and dn: "digTok n" by simp_all
  show ?case
  proof (cases "numTok 64 t")
    case False
    have pi: "parseInt 64 (ok (t @ ?s3)) = (of_nat (2 ^ 64 - 1), bad ?s3 ErrRange)"
      using dt False _ e3 by (rule parseInt_over) simp
    show ?thesis using parse_kw_uc[OF eY] pi by (auto simp add: ucLoop_bad parseInt_bad)
  next
    case True
    with TextUc.prems have nv: "\<not> numTok 8 n" by simp
    have pi: "parseInt 64 (ok (t @ ?s3)) = (of_nat (decval t), ok ?s3)"
      using True _ e3 by (rule parseInt_num) simp
    have c2: "consume CHR '','' (ok ?s3) = ok (CHR ''['' # ?s4)"
      using e3 by (simp add: consume_delim)
    have c3: "consume CHR ''['' (ok (CHR ''['' # ?s4)) = ok ?s4"
      using e4' by (simp add: consume_delim)
    have ul: "ucLoop [] (ok ?s4) = ([] @ map hexBytes ks, ok ?s5)"
      using ks e6 by (rule ucLoop_keys)
    have c4: "consume CHR '']'' (ok ?s5) = ok ?s6"
      using e5 by (simp add: consume_delim)
    have c5: "consume CHR '','' (ok ?s6) = ok ?s7"
      using e6 by (simp add: consume_delim)
    have pi2: "parseInt 8 (ok ?s7) = (of_nat (2 ^ 8 - 1), bad (CHR '')'' # rest) ErrRange)"
      using dn nv _ e by (rule parseInt_over) simp
    show ?thesis using parse_kw_uc[OF eY] pi c2 c3 ul c4 c5 pi2 by auto
  qed
qed

lemma valid_digit_text: "valid_text t \<Longrightarrow> digit_text t"
proof (induction t)
  case (TextThresh n ts)
  then show ?case by (auto simp: numTok_iff list_all_iff)
qed (auto simp: numTok_iff)

text \<open>
  C8. A numeric token is parsed with the ceiling of its field: 64 bits for the height of
  \<open>above\<close> and the timelock of \<open>uc\<close>, 8 bits for the count of \<open>thresh\<close> and the
  signature count of \<open>uc\<close> (these are the widths in \<open>valid_text\<close>). For every text of
  the grammar whose numeric fields are digit strings, \<open>ParseSpendPolicy\<close> returns no
  error when every field is within its ceiling, and the range error otherwise: a value
  above the ceiling is never truncated into an accepted policy.
\<close>

theorem numeric_ceiling_enforced:
  "digit_text t \<Longrightarrow>
   snd (ParseSpendPolicy (render t)) = (if valid_text t then None else Some ErrRange)"
proof (cases "valid_text t")
  case True
  then show ?thesis by (simp add: parse_render_top)
next
  case False
  assume "digit_text t"
  with False obtain p r where "parseSpendPolicy (ok (render t @ [])) = (p, bad r ErrRange)"
    using parse_range[of t "[]"] by auto
  then show ?thesis using False ParseSpendPolicy_bad[of "render t" p r ErrRange] by simp
qed

theorem numeric_ceiling_enforced_witness:
  "digit_text (TextThresh ''256'' []) \<and> \<not> valid_text (TextThresh ''256'' []) \<and>
   snd (ParseSpendPolicy ''thresh(256,[])'') = Some ErrRange"
proof -
  have d: "digit_text (TextThresh ''256'' [])" by (simp add: digTok_def isDigit_def)
  have v: "\<not> valid_text (TextThresh ''256'' [])"
    by (simp add: numTok_def decval_def digitVal_def)
  show ?thesis using numeric_ceiling_enforced[OF d] d v by simp
qed

subsection \<open>The JSON adapter\<close>

lemma dropWhile_replicate_append:
  "dropWhile (\<lambda>c. c = q) (replicate i q @ ys) = dropWhile (\<lambda>c. c = q) ys"
  by (induction i) simp_all

lemma dropWhile_replicate_all: "dropWhile (\<lambda>c. c = q) (replicate j q) = []"
  by (induction j) simp_all

lemma bytesTrim_single:
  "bytesTrim b [q] = rev (dropWhile (\<lambda>c. c = q) (rev (dropWhile (\<lambda>c. c = q) b)))"
  by (simp add: bytesTrim_def)

lemma dropWhile_hd: "m \<noteq> [] \<Longrightarrow> hd m \<noteq> q \<Longrightarrow> dropWhile (\<lambda>c. c = q) (m @ ys) = m @ ys"
  by (cases m) simp_all

lemma dropWhile_last: "m \<noteq> [] \<Longrightarrow> last m \<noteq> q \<Longrightarrow> dropWhile (\<lambda>c. c = q) (rev m) = rev m"
  by (cases m rule: rev_cases) simp_all

lemma bytesTrim_quotes:
  assumes "m = [] \<or> (hd m \<noteq> q \<and> last m \<noteq> q)"
  shows "bytesTrim (replicate i q @ m @ replicate j q) [q] = m"
proof (cases "m = []")
  case True
  have "dropWhile (\<lambda>c. c = q) (replicate i q @ [] @ replicate j q) = []"
    by (simp only: append_Nil dropWhile_replicate_append dropWhile_replicate_all)
  then show ?thesis unfolding True bytesTrim_single by (simp only: rev.simps dropWhile.simps)
next
  case False
  with assms have h: "hd m \<noteq> q" and l: "last m \<noteq> q" by blast+
  have 1: "dropWhile (\<lambda>c. c = q) (replicate i q @ m @ replicate j q) = m @ replicate j q"
    by (simp only: dropWhile_replicate_append dropWhile_hd[OF False h])
  have r: "rev (m @ replicate j q) = replicate j q @ rev m" by simp
  have 2: "dropWhile (\<lambda>c. c = q) (rev (m @ replicate j q)) = rev m"
    by (simp only: r dropWhile_replicate_append dropWhile_last[OF False l])
  show ?thesis by (simp only: bytesTrim_single 1 2 rev_rev_ident)
qed

lemma FormatUint_digit: "n < 10 \<Longrightarrow> FormatUint n = [digitChar n]"
  by (subst FormatUint.simps) simp

text \<open>
  The reading of the specification: exactly one leading and one trailing quote
  character are removed.
\<close>

definition stripOneQuoteLayer :: "string \<Rightarrow> string" where
  "stripOneQuoteLayer b =
     (let b1 = (if b \<noteq> [] \<and> hd b = quote then tl b else b)
      in if b1 \<noteq> [] \<and> last b1 = quote then butlast b1 else b1)"

lemma parse_above_5: "ParseSpendPolicy ''above(5)'' = (PolicyTypeAbove 5, None)"
  using parse_render_top[of "TextAbove ''5''"] numTok_5 by (simp add: decval_def digitVal_def)

lemma parse_quoted_above_5:
  "ParseSpendPolicy (quote # ''above(5)'' @ [quote]) =
     (NilPolicy, Some (ErrUnrecognizedPolicyType (quote # ''above'')))"
proof -
  let ?s = "quote # ''above(5)'' @ [quote]"
  have ti: "tight ?s" by (simp add: tight_Cons endOK_Cons quote_def spaceLead_def spaceTrail_def)
  have nt: "nextToken (ok ?s) = (quote # ''above'', ok (''(5)'' @ [quote]))"
    using nextToken_ok[OF ti] by (simp add: quote_def)
  have c1: "consume CHR ''('' (ok (''(5)'' @ [quote])) = ok (''5)'' @ [quote])"
    by (simp add: consume_ok tight_Cons endOK_Cons quote_def spaceTrail_def)
  have "parseSpendPolicy (ok ?s) =
      (NilPolicy, bad (''5)'' @ [quote]) (ErrUnrecognizedPolicyType (quote # ''above'')))"
    using nt c1 by (subst parseSpendPolicy.simps) (simp add: quote_def)
  then show ?thesis using ParseSpendPolicy_bad[of ?s] by simp
qed

text \<open>
  C6, as the specification states it, fails: of two layers of quote characters both are
  removed, and the text inside is parsed, where the text with one layer left is no policy.
\<close>

theorem UnmarshalJSON_one_layer_counterexample:
  "UnmarshalJSON (quote # quote # ''above(5)'' @ [quote, quote]) = (PolicyTypeAbove 5, None) \<and>
   stripOneQuoteLayer (quote # quote # ''above(5)'' @ [quote, quote]) = quote # ''above(5)'' @ [quote] \<and>
   ParseSpendPolicy (stripOneQuoteLayer (quote # quote # ''above(5)'' @ [quote, quote])) =
     (NilPolicy, Some (ErrUnrecognizedPolicyType (quote # ''above''))) \<and>
   UnmarshalJSON (quote # quote # ''above(5)'' @ [quote, quote]) \<noteq>
     ParseSpendPolicy (stripOneQuoteLayer (quote # quote # ''above(5)'' @ [quote, quote]))"
proof -
  have "bytesTrim (replicate 2 quote @ ''above(5)'' @ replicate 2 quote) [quote] = ''above(5)''"
    by (rule bytesTrim_quotes) (simp add: quote_def)
  then have t: "bytesTrim (quote # quote # ''above(5)'' @ [quote, quote]) [quote] = ''above(5)''"
    by (simp add: numeral_2_eq_2)
  have u: "UnmarshalJSON (quote # quote # ''above(5)'' @ [quote, quote]) = (PolicyTypeAbove 5, None)"
    unfolding UnmarshalJSON_def UnmarshalText_def t by (rule parse_above_5)
  have s: "stripOneQuoteLayer (quote # quote # ''above(5)'' @ [quote, quote]) = quote # ''above(5)'' @ [quote]"
    by (simp add: stripOneQuoteLayer_def)
  show ?thesis unfolding s u using parse_quoted_above_5 by simp
qed

text \<open>
  C6, amended. JSON decoding removes every leading and every trailing quote character,
  however many there are (none included), and hands what is left, unchanged and not
  unescaped, to the text parser.
\<close>

theorem UnmarshalJSON_trims_quotes:
  "m = [] \<or> (hd m \<noteq> quote \<and> last m \<noteq> quote) \<Longrightarrow>
   UnmarshalJSON (replicate i quote @ m @ replicate j quote) = ParseSpendPolicy m"
  by (simp add: UnmarshalJSON_def UnmarshalText_def bytesTrim_quotes)

theorem UnmarshalJSON_trims_quotes_witness:
  "UnmarshalJSON (replicate 2 quote @ ''above(5)'' @ replicate 3 quote) = (PolicyTypeAbove 5, None) \<and>
   UnmarshalJSON (MarshalJSON (PolicyTypeAbove 5)) = (PolicyTypeAbove 5, None) \<and>
   UnmarshalJSON ''above(5)'' = (PolicyTypeAbove 5, None)"
proof -
  have s: "String (PolicyTypeAbove 5) = ''above(5)''"
    by simp (simp add: FormatUint_digit digitChar_simps)
  have m: "MarshalJSON (PolicyTypeAbove 5) = replicate 1 quote @ ''above(5)'' @ replicate 1 quote"
    unfolding MarshalJSON_def s by simp
  have c: "''above(5)'' = [] \<or> (hd ''above(5)'' \<noteq> quote \<and> last ''above(5)'' \<noteq> quote)"
    by (simp add: quote_def)
  show ?thesis
    unfolding m
    using UnmarshalJSON_trims_quotes[OF c, of 2 3] UnmarshalJSON_trims_quotes[OF c, of 1 1]
      UnmarshalJSON_trims_quotes[OF c, of 0 0] parse_above_5
    by simp
qed

subsection \<open>What the writer makes of a parsed text\<close>

text \<open>
  The normal form of a token: a numeric token without its superfluous leading zeros, a
  key token with its hexadecimal digits in lower case.
\<close>

definition stripZeros :: "string \<Rightarrow> string" where
  "stripZeros t = (case dropWhile (\<lambda>c. c = CHR ''0'') t of [] \<Rightarrow> ''0'' | c # cs \<Rightarrow> c # cs)"

definition lowerHex :: "char \<Rightarrow> char" where
  "lowerHex c =
     (if c = CHR ''A'' then CHR ''a'' else if c = CHR ''B'' then CHR ''b''
      else if c = CHR ''C'' then CHR ''c'' else if c = CHR ''D'' then CHR ''d''
      else if c = CHR ''E'' then CHR ''e'' else if c = CHR ''F'' then CHR ''f'' else c)"

fun canon :: "policy_text \<Rightarrow> policy_text" where
  "canon (TextAbove h) = TextAbove (stripZeros h)"
| "canon (TextPk k) = TextPk (map lowerHex k)"
| "canon (TextThresh n ts) = TextThresh (stripZeros n) (map canon ts)"
| "canon (TextUc t ks n) = TextUc (stripZeros t) (map (map lowerHex) ks) (stripZeros n)"

lemma range_cases:
  "48 \<le> n \<Longrightarrow> n \<le> 57 \<Longrightarrow> n \<in> {48, 49, 50, 51, 52, 53, 54, 55, 56, 57 :: nat}"
  "97 \<le> n \<Longrightarrow> n \<le> 102 \<Longrightarrow> n \<in> {97, 98, 99, 100, 101, 102 :: nat}"
  "65 \<le> n \<Longrightarrow> n \<le> 70 \<Longrightarrow> n \<in> {65, 66, 67, 68, 69, 70 :: nat}"
  by (simp, arith)+

lemma char_of_nat_eq: "(of_char c :: nat) = n \<Longrightarrow> c = char_of n"
  by auto

lemma isDigit_cases: "isDigit c \<Longrightarrow> c \<in> set ''0123456789''"
proof -
  assume "isDigit c"
  then have "(of_char c :: nat) \<in> {48, 49, 50, 51, 52, 53, 54, 55, 56, 57}"
    using range_cases(1)[of "of_char c"] by (simp add: isDigit_def)
  then have "c \<in> char_of ` {48, 49, 50, 51, 52, 53, 54, 55, 56, 57 :: nat}"
    using char_of_nat_eq[of c] by blast
  then show ?thesis by (auto simp add: char_of_eq_iff)
qed

lemma isHex_cases: "isHex c \<Longrightarrow> c \<in> set ''0123456789abcdefABCDEF''"
proof -
  assume "isHex c"
  then have "(of_char c :: nat) \<in> {48, 49, 50, 51, 52, 53, 54, 55, 56, 57}
      \<or> (of_char c :: nat) \<in> {97, 98, 99, 100, 101, 102}
      \<or> (of_char c :: nat) \<in> {65, 66, 67, 68, 69, 70}"
    using range_cases[of "of_char c"]
    by (auto simp add: isHex_def fromHexChar_def Let_def split: if_splits)
  then have "c \<in> char_of ` {48, 49, 50, 51, 52, 53, 54, 55, 56, 57, 97, 98, 99, 100, 101, 102,
      65, 66, 67, 68, 69, 70 :: nat}"
    using char_of_nat_eq[of c] by blast
  then show ?thesis by (auto simp add: char_of_eq_iff)
qed

lemma hex_lower_all:
  "\<forall>c \<in> set ''0123456789abcdefABCDEF''.
     hextable ! unat (the (fromHexChar c)) = lowerHex c \<and> the (fromHexChar c) < 16"
  by (simp add: fromHexChar_def hextable_def lowerHex_def)

lemma hex_lower:
  "isHex c \<Longrightarrow> hextable ! unat (the (fromHexChar c)) = lowerHex c \<and> the (fromHexChar c) < 16"
  using isHex_cases[of c] hex_lower_all by blast

lemma nibble_pair:
  assumes "a < 16" "b < (16 :: byte)"
  shows "drop_bit 4 (push_bit 4 a OR b) = a" "(push_bit 4 a OR b) AND 0x0f = b"
proof -
  have m: "(0x0f :: byte) = mask 4" by (simp add: mask_eq_exp_minus_1)
  have "a AND mask 4 = a" using assms(1) by (intro less_mask_eq) simp
  then have a: "take_bit 4 a = a" by (simp only: take_bit_eq_mask)
  have "b AND mask 4 = b" using assms(2) by (intro less_mask_eq) simp
  then have b: "take_bit 4 b = b" by (simp only: take_bit_eq_mask)
  have "drop_bit 4 (push_bit 4 (take_bit 4 a) OR take_bit 4 b) = take_bit 4 a"
    by (rule bit_word_eqI) (auto simp add: bit_simps)
  then show "drop_bit 4 (push_bit 4 a OR b) = a" by (simp only: a b)
  have "(push_bit 4 (take_bit 4 a) OR take_bit 4 b) AND mask 4 = take_bit 4 b"
    by (rule bit_word_eqI) (auto simp add: bit_simps)
  then show "(push_bit 4 a OR b) AND 0x0f = b" by (simp only: a b m)
qed

lemma EncodeToString_hexBytes:
  "even (length k) \<Longrightarrow> list_all isHex k \<Longrightarrow> EncodeToString (hexBytes k) = map lowerHex k"
proof (induction k rule: hexBytes.induct)
  case (1 p q rest)
  then have p: "isHex p" and q: "isHex q" and r: "even (length rest)" "list_all isHex rest"
    by simp_all
  define a where "a = the (fromHexChar p)"
  define b where "b = the (fromHexChar q)"
  have la: "hextable ! unat a = lowerHex p" "a < 16" using hex_lower[OF p] by (simp_all add: a_def)
  have lb: "hextable ! unat b = lowerHex q" "b < 16" using hex_lower[OF q] by (simp_all add: b_def)
  note np = nibble_pair[OF la(2) lb(2)]
  have "EncodeToString (hexBytes (p # q # rest)) =
      EncodeToString ((push_bit 4 a OR b) # hexBytes rest)"
    by (simp only: hexBytes.simps a_def b_def)
  also have "\<dots> = hextable ! unat a # hextable ! unat b # EncodeToString (hexBytes rest)"
    by (simp only: EncodeToString_Cons np)
  also have "\<dots> = lowerHex p # lowerHex q # map lowerHex rest"
    by (simp only: la(1) lb(1) "1.IH"[OF r])
  finally show ?case by simp
next
  case (2 p)
  then show ?case by simp
next
  case 3
  show ?case by (simp add: EncodeToString_def)
qed

lemma digitVal_zero: "isDigit c \<Longrightarrow> (digitVal c = 0) = (c = CHR ''0'')"
  using isDigit_cases[of c] by (auto simp add: digitVal_def)

lemma digitChar_digitVal: "isDigit c \<Longrightarrow> digitChar (digitVal c) = c \<and> digitVal c < 10"
proof -
  have "\<forall>c \<in> set ''0123456789''. digitChar (digitVal c) = c \<and> digitVal c < 10"
    by (simp add: digitVal_def digitChar_simps)
  then show "isDigit c \<Longrightarrow> digitChar (digitVal c) = c \<and> digitVal c < 10"
    using isDigit_cases[of c] by blast
qed

lemma decval_zero: "list_all isDigit t \<Longrightarrow> (decval t = 0) = (\<forall>c \<in> set t. c = CHR ''0'')"
proof (induction t rule: rev_induct)
  case Nil
  show ?case by (simp add: decval_def)
next
  case (snoc c t)
  then show ?case by (auto simp add: decval_snoc digitVal_zero)
qed

lemma stripZeros_snoc:
  "stripZeros (t @ [c]) = (if \<forall>x \<in> set t. x = CHR ''0'' then [c] else stripZeros t @ [c])"
proof (cases "\<forall>x \<in> set t. x = CHR ''0''")
  case True
  then have "dropWhile (\<lambda>c. c = CHR ''0'') (t @ [c]) = dropWhile (\<lambda>c. c = CHR ''0'') [c]"
    by (intro dropWhile_append2) simp
  with True show ?thesis by (simp add: stripZeros_def)
next
  case False
  then have ne: "dropWhile (\<lambda>c. c = CHR ''0'') t \<noteq> []" by simp
  from False obtain x where "x \<in> set t" "x \<noteq> CHR ''0''" by blast
  then have "dropWhile (\<lambda>c. c = CHR ''0'') (t @ [c]) = dropWhile (\<lambda>c. c = CHR ''0'') t @ [c]"
    by (rule dropWhile_append1)
  with False ne show ?thesis
    by (cases "dropWhile (\<lambda>c. c = CHR ''0'') t") (simp_all add: stripZeros_def)
qed

lemma FormatUint_step: "10 \<le> n \<Longrightarrow> FormatUint n = FormatUint (n div 10) @ [digitChar (n mod 10)]"
  by (subst FormatUint.simps) simp

lemma FormatUint_decval:
  "t \<noteq> [] \<Longrightarrow> list_all isDigit t \<Longrightarrow> FormatUint (decval t) = stripZeros t"
proof (induction t rule: rev_induct)
  case Nil
  then show ?case by simp
next
  case (snoc c t)
  then have c: "isDigit c" and t: "list_all isDigit t" by simp_all
  note dc = digitChar_digitVal[OF c]
  show ?case
  proof (cases "decval t = 0")
    case True
    then have z: "\<forall>x \<in> set t. x = CHR ''0''" using decval_zero[OF t] by simp
    have "decval (t @ [c]) = digitVal c" using True by (simp add: decval_snoc)
    then have "FormatUint (decval (t @ [c])) = [c]" using dc by (simp add: FormatUint_digit)
    then show ?thesis using z by (simp add: stripZeros_snoc)
  next
    case False
    then have nz: "\<not> (\<forall>x \<in> set t. x = CHR ''0'')" using decval_zero[OF t] by simp
    then have ne: "t \<noteq> []" by auto
    have ge: "10 \<le> decval t * 10 + digitVal c" using False by simp
    have dm: "(decval t * 10 + digitVal c) div 10 = decval t" "(decval t * 10 + digitVal c) mod 10 = digitVal c"
      using dc by simp_all
    have "FormatUint (decval (t @ [c])) = FormatUint (decval t) @ [c]"
      unfolding decval_snoc FormatUint_step[OF ge] dm using dc by simp
    also have "\<dots> = stripZeros t @ [c]" using snoc.IH[OF ne t] by simp
    finally show ?thesis unfolding stripZeros_snoc using nz by (simp only: if_False)
  qed
qed

lemma FormatUint_numTok:
  "numTok 64 t \<Longrightarrow> FormatUint (unat (of_nat (decval t) :: 64 word)) = stripZeros t"
  "numTok 8 t \<Longrightarrow> FormatUint (unat (of_nat (decval t) :: 8 word)) = stripZeros t"
  by (simp_all add: numTok_def unsigned_of_nat take_bit_nat_eq_self FormatUint_decval)

lemma String_policy_of:
  "valid_text t \<Longrightarrow> String (policy_of t) = render (canon t)"
proof (induction t)
  case (TextAbove h)
  then show ?case by (simp add: FormatUint_numTok)
next
  case (TextPk k)
  then show ?case by (simp add: keyTok_def EncodeToString_hexBytes)
next
  case (TextThresh n ts)
  then have m: "map (String \<circ> policy_of) ts = map (render \<circ> canon) ts"
    by (simp add: list_all_iff)
  show ?case using TextThresh.prems by (simp add: FormatUint_numTok m)
next
  case (TextUc t ks n)
  then have m: "map (EncodeToString \<circ> hexBytes) ks = map (map lowerHex) ks"
    by (simp add: list_all_iff keyTok_def EncodeToString_hexBytes)
  show ?case using TextUc.prems by (simp add: FormatUint_numTok m)
qed

text \<open>Texts whose numeric tokens have no superfluous leading zero.\<close>

fun plain_numbers :: "policy_text \<Rightarrow> bool" where
  "plain_numbers (TextAbove h) = (stripZeros h = h)"
| "plain_numbers (TextPk k) = True"
| "plain_numbers (TextThresh n ts) = (stripZeros n = n \<and> list_all plain_numbers ts)"
| "plain_numbers (TextUc t ks n) = (stripZeros t = t \<and> stripZeros n = n)"

lemma lowerHex_digit: "isDigit c \<Longrightarrow> lowerHex c = c"
proof -
  have "\<forall>c \<in> set ''0123456789''. lowerHex c = c" by (simp add: lowerHex_def)
  then show "isDigit c \<Longrightarrow> lowerHex c = c" using isDigit_cases[of c] by blast
qed

lemma lowerHex_digits: "list_all isDigit t \<Longrightarrow> map lowerHex t = t"
  by (induction t) (simp_all add: lowerHex_digit)

lemma lowerHex_writeList: "map lowerHex (writeList xs) = writeList (map (map lowerHex) xs)"
  by (induction xs rule: writeList.induct) (simp_all add: lowerHex_def)

lemma lowerHex_render:
  "valid_text t \<Longrightarrow> plain_numbers t \<Longrightarrow> map lowerHex (render t) = render (canon t)"
proof (induction t)
  case (TextAbove h)
  then show ?case by (simp add: numTok_def lowerHex_digits) (simp add: lowerHex_def)
next
  case (TextPk k)
  then show ?case by (simp add: lowerHex_def)
next
  case (TextThresh n ts)
  then have m: "map (map lowerHex \<circ> render) ts = map (render \<circ> canon) ts"
    by (simp add: list_all_iff)
  from TextThresh.prems show ?case
    by (simp add: numTok_def lowerHex_digits lowerHex_writeList m) (simp add: lowerHex_def)
next
  case (TextUc t ks n)
  then show ?case
    by (simp add: numTok_def lowerHex_digits lowerHex_writeList) (simp add: lowerHex_def)
qed

subsection \<open>White space after a delimiter\<close>

lemma TrimSpace_space: "tight s \<Longrightarrow> TrimSpace (CHR '' '' # s) = s"
proof -
  assume t: "tight s"
  have f: "List.find (\<lambda>w. w \<noteq> [] \<and> prefix w (CHR '' '' # s)) spaceRunes = Some [CHR '' '']"
    by (simp add: spaceRunes_def)
  have 0: "stripRunes spaceRunes s = s"
    using t by (intro stripRunes_id) (auto simp: tight_def hd_spaceRunes)
  have 1: "stripRunes spaceRunes (CHR '' '' # s) = s"
    by (subst stripRunes.simps) (simp add: f 0)
  have "rev s = [] \<or> hd (rev s) \<notin> hd ` set (map rev spaceRunes)"
    unfolding last_spaceRunes using t by (auto simp: tight_def hd_rev)
  then have 2: "stripRunes (map rev spaceRunes) (rev s) = rev s"
    by (rule stripRunes_id)
  show ?thesis by (simp add: TrimSpace_def 1 2)
qed

lemma parseInt_space: "tight s \<Longrightarrow> parseInt k (ok (CHR '' '' # s)) = parseInt k (ok s)"
  by (simp add: parseInt_def nextToken_def TrimSpace_space TrimSpace_tight ok_def
      split: option.splits)

lemma parse_above_space_5: "ParseSpendPolicy ''above( 5)'' = (PolicyTypeAbove 5, None)"
proof -
  have e: "endOK '' 5)''" by (simp add: endOK_def spaceTrail_def)
  have ti: "tight ''5)''" by (simp add: tight_def spaceLead_def spaceTrail_def)
  have pi: "parseInt 64 (ok (''5'' @ CHR '')'' # [])) = (of_nat (decval ''5''), ok (CHR '')'' # []))"
    using numTok_5 by (rule parseInt_num) (simp_all add: endOK_close)
  have c: "consume CHR '')'' (ok (CHR '')'' # [])) = ok []"
    by (simp add: consume_delim endOK_close)
  have sp: "parseInt 64 (ok '' 5)'') = parseInt 64 (ok ''5)'')"
    using parseInt_space[OF ti, of 64] by simp
  have pi': "parseInt 64 (ok ''5)'') = (5, ok '')'')"
    using pi by (simp add: decval_def digitVal_def)
  have c': "consume CHR '')'' (ok '')'') = ok []" using c by simp
  have "parseSpendPolicy (ok (''above('' @ '' 5)'')) =
     (case parseInt 64 (ok '' 5)'') of (h, st3) \<Rightarrow> (PolicyTypeAbove h, consume CHR '')'' st3))"
    using e by (rule parse_kw_above)
  then have "parseSpendPolicy (ok ''above( 5)'') = (PolicyTypeAbove 5, ok [])"
    unfolding sp pi' by (simp add: c')
  then show ?thesis using ParseSpendPolicy_ok[of "''above( 5)''"] by simp
qed

lemma parse_above_007: "ParseSpendPolicy ''above(007)'' = (PolicyTypeAbove 7, None)"
proof -
  have "numTok 64 ''007''" by (simp add: numTok_def decval_def isDigit_def digitVal_def)
  then show ?thesis using parse_render_top[of "TextAbove ''007''"] by (simp add: decval_def digitVal_def)
qed

lemma String_above_digit:
  "String (PolicyTypeAbove 5) = ''above(5)''" "String (PolicyTypeAbove 7) = ''above(7)''"
  by simp_all (simp_all add: FormatUint_digit digitChar_simps)

text \<open>
  C2, as stated, fails. The parser accepts leading zeros in a number and white space
  after a delimiter; the writer produces neither, and lowercasing hexadecimal digits does
  not change such a text.
\<close>

theorem parse_then_String_counterexample:
  "ParseSpendPolicy ''above(007)'' = (PolicyTypeAbove 7, None) \<and>
   String (fst (ParseSpendPolicy ''above(007)'')) = ''above(7)'' \<and>
   map lowerHex ''above(007)'' = ''above(007)'' \<and>
   String (fst (ParseSpendPolicy ''above(007)'')) \<noteq> map lowerHex ''above(007)'' \<and>
   ParseSpendPolicy ''above( 5)'' = (PolicyTypeAbove 5, None) \<and>
   String (fst (ParseSpendPolicy ''above( 5)'')) = ''above(5)'' \<and>
   map lowerHex ''above( 5)'' = ''above( 5)'' \<and>
   String (fst (ParseSpendPolicy ''above( 5)'')) \<noteq> map lowerHex ''above( 5)''"
proof -
  have l: "map lowerHex ''above(007)'' = ''above(007)''" "map lowerHex ''above( 5)'' = ''above( 5)''"
    by (simp_all add: lowerHex_def)
  show ?thesis
    unfolding parse_above_007 parse_above_space_5 fst_conv String_above_digit l by simp
qed

text \<open>
  C2, amended. For every text of the grammar of the textual form, written with no white
  space and no comma before a closing bracket, whose numeric fields are digit strings
  within their ceilings (leading zeros allowed) and whose keys are 64 hexadecimal digits
  of either case, \<open>ParseSpendPolicy\<close> succeeds, and the string of the policy it returns
  is the text with the hexadecimal digits of its keys in lower case and the superfluous
  leading zeros of its numeric fields removed. Where no numeric field has such a
  zero, that is the text with its hexadecimal digits lowercased and no other change.
\<close>

theorem parse_then_String:
  "valid_text t \<Longrightarrow>
   snd (ParseSpendPolicy (render t)) = None \<and>
   String (fst (ParseSpendPolicy (render t))) = render (canon t) \<and>
   (plain_numbers t \<longrightarrow> String (fst (ParseSpendPolicy (render t))) = map lowerHex (render t))"
  by (simp add: parse_render_top String_policy_of lowerHex_render)

theorem parse_then_String_witness:
  "valid_text (TextThresh ''1'' [TextPk (replicate 64 CHR ''A''), TextAbove ''7'']) \<and>
   plain_numbers (TextThresh ''1'' [TextPk (replicate 64 CHR ''A''), TextAbove ''7'']) \<and>
   snd (ParseSpendPolicy (''thresh(1,[pk('' @ replicate 64 CHR ''A'' @ ''),above(7)])'')) = None \<and>
   String (fst (ParseSpendPolicy (''thresh(1,[pk('' @ replicate 64 CHR ''A'' @ ''),above(7)])''))) =
     ''thresh(1,[pk('' @ replicate 64 CHR ''a'' @ ''),above(7)])''"
proof -
  let ?t = "TextThresh ''1'' [TextPk (replicate 64 CHR ''A''), TextAbove ''7'']"
  have v: "valid_text ?t"
    by (simp add: numTok_def keyTok_def isDigit_def isHex_def fromHexChar_def decval_def
        digitVal_def list_all_iff)
  have p: "plain_numbers ?t" by (simp add: stripZeros_def)
  have r: "render ?t = ''thresh(1,[pk('' @ replicate 64 CHR ''A'' @ ''),above(7)])''" by simp
  have l: "map lowerHex (render ?t) = ''thresh(1,[pk('' @ replicate 64 CHR ''a'' @ ''),above(7)])''"
    by (simp add: lowerHex_def)
  note th = parse_then_String[OF v]
  from th have a: "snd (ParseSpendPolicy (render ?t)) = None" by (rule conjunct1)
  from th p have b: "String (fst (ParseSpendPolicy (render ?t))) = map lowerHex (render ?t)"
    by blast
  show ?thesis
    by (rule conjI[OF v conjI[OF p conjI[OF a[unfolded r] b[unfolded l, unfolded r]]]])
qed

section \<open>The legacy Merkle accumulator\<close>

subsection \<open>The slot that \<open>addLeaf\<close> writes\<close>

lemma u8_bit_test: "((n :: 8 word) AND push_bit i 1 \<noteq> 0) = bit n i"
  by (simp add: bit_iff_and_push_bit_not_eq_0 del: push_bit_of_1)

lemma u8_bit_test': "((n :: 8 word) AND 2 ^ i = 0) = (\<not> bit n i)"
  using u8_bit_test[of n i] by auto

lemma u8_max_unat: "((n :: 8 word) = - 1) = (unat n = 255)"
  by (simp add: word_unat_eq_iff unsigned_minus_1_eq_mask mask_eq_exp_minus_1)

lemma u8_all_bits: "(\<forall>j < 8. bit (n :: 8 word) j) = (n = - 1)"
proof
  assume "\<forall>j < 8. bit n j"
  then show "n = - 1" by (intro bit_word_eqI) simp
next
  assume "n = - 1"
  then show "\<forall>j < 8. bit n j" by simp
qed

lemma addLeafLoop_index:
  "length ts = 8 \<Longrightarrow>
   \<exists>i' h' b'. addLeafLoop H ts n i h b = Inr (i', h', b') \<and> i \<le> i' \<and> \<not> bit n i' \<and>
     (\<forall>j. i \<le> j \<and> j < i' \<longrightarrow> bit n j)"
proof (induction H ts n i h b rule: addLeafLoop.induct)
  case (1 H ts n i h b)
  show ?case
  proof (cases "bit n i")
    case False
    then show ?thesis by (subst addLeafLoop.simps) (auto simp add: u8_bit_test')
  next
    case True
    then have i8: "i < 8" using bit_imp_le_length[of n i] by simp
    obtain h1 b1 where nh: "nodeHash H (ts ! i) h b = (h1, b1)" by (cases "nodeHash H (ts ! i) h b")
    have "n AND push_bit i 1 \<noteq> 0" using True by (simp only: u8_bit_test)
    from "1.IH"[OF this _ nh[symmetric] "1.prems"] i8 "1.prems"
    obtain i' h' b' where r: "addLeafLoop H ts n (Suc i) h1 b1 = Inr (i', h', b')"
      "Suc i \<le> i'" "\<not> bit n i'" "\<forall>j. Suc i \<le> j \<and> j < i' \<longrightarrow> bit n j"
      by auto
    have a: "addLeafLoop H ts n i h b = Inr (i', h', b')"
      using True i8 "1.prems" nh r(1) by (subst addLeafLoop.simps) (simp add: u8_bit_test')
    have "\<forall>j. i \<le> j \<and> j < i' \<longrightarrow> bit n j"
    proof (intro allI impI)
      fix j assume "i \<le> j \<and> j < i'"
      then show "bit n j" using True r(4) by (cases "j = i") auto
    qed
    then show ?thesis using a r(2,3) by auto
  qed
qed

lemma addLeaf_ok:
  assumes "length (trees st) = 8" "numLeaves st \<noteq> - 1"
  shows "\<exists>st'. addLeaf H h st = Inr st' \<and> length (trees st') = 8 \<and>
           numLeaves st' = numLeaves st + 1"
proof -
  from addLeafLoop_index[OF assms(1), of H "numLeaves st" 0 h "buf st"]
  obtain i' h' b' where r: "addLeafLoop H (trees st) (numLeaves st) 0 h (buf st) = Inr (i', h', b')"
    "\<not> bit (numLeaves st) i'" "\<forall>j. j < i' \<longrightarrow> bit (numLeaves st) j"
    by auto
  from assms(2) obtain j where j: "j < 8" "\<not> bit (numLeaves st) j"
    using u8_all_bits[of "numLeaves st"] by auto
  then have "i' < 8" using r(3) by (meson not_less order_less_le_trans)
  then show ?thesis using r(1) assms(1) by (simp add: addLeaf_def)
qed

lemma addLeaf_full:
  assumes "length (trees st) = 8" "numLeaves st = - 1"
  shows "addLeaf H h st = Inl IndexOutOfRange"
proof -
  from addLeafLoop_index[OF assms(1), of H "numLeaves st" 0 h "buf st"]
  obtain i' h' b' where r: "addLeafLoop H (trees st) (numLeaves st) 0 h (buf st) = Inr (i', h', b')"
    "\<not> bit (numLeaves st) i'"
    by auto
  have "\<not> i' < 8" using r(2) u8_all_bits[of "numLeaves st"] assms(2) by auto
  then show ?thesis using r(1) assms(1) by (simp add: addLeaf_def)
qed

lemma u8_succ: "numLeaves st \<noteq> - 1 \<Longrightarrow> unat (numLeaves st + 1) = Suc (unat (numLeaves st))"
proof -
  assume "numLeaves st \<noteq> - 1"
  then have "unat (numLeaves st) \<noteq> 255" by (simp add: u8_max_unat)
  moreover have "unat (numLeaves st) < 256" using unsigned_less[of "numLeaves st"] by simp
  ultimately show ?thesis by (simp add: unat_word_ariths)
qed

lemma addKeys_ok:
  "length (trees st) = 8 \<Longrightarrow> unat (numLeaves st) + length ks \<le> 255 \<Longrightarrow>
   \<exists>st'. addKeys H ks st = Inr st' \<and> length (trees st') = 8 \<and>
     unat (numLeaves st') = unat (numLeaves st) + length ks"
proof (induction ks arbitrary: st)
  case Nil
  then show ?case by simp
next
  case (Cons k ks)
  obtain h b where pl: "pubkeyLeaf H k (buf st) = (h, b)" by (cases "pubkeyLeaf H k (buf st)")
  let ?s = "st\<lparr>buf := b\<rparr>"
  have ne: "numLeaves ?s \<noteq> - 1" using Cons.prems(2) by (simp add: u8_max_unat)
  from addLeaf_ok[of ?s H h] Cons.prems(1) ne
  obtain st1 where s1: "addLeaf H h ?s = Inr st1" "length (trees st1) = 8"
    "numLeaves st1 = numLeaves st + 1" by auto
  have u: "unat (numLeaves st1) = Suc (unat (numLeaves st))"
    using ne s1(3) u8_succ[of ?s] by simp
  from Cons.IH[OF s1(2)] u Cons.prems(2)
  obtain st' where "addKeys H ks st1 = Inr st'" "length (trees st') = 8"
    "unat (numLeaves st') = unat (numLeaves st1) + length ks" by auto
  then show ?case using pl s1(1) u by simp
qed

lemma addKeys_full:
  "length (trees st) = 8 \<Longrightarrow> 256 \<le> unat (numLeaves st) + length ks \<Longrightarrow>
   addKeys H ks st = Inl IndexOutOfRange"
proof (induction ks arbitrary: st)
  case Nil
  have "unat (numLeaves st) < 256" using unsigned_less[of "numLeaves st"] by simp
  then show ?case using Nil by simp
next
  case (Cons k ks)
  obtain h b where pl: "pubkeyLeaf H k (buf st) = (h, b)" by (cases "pubkeyLeaf H k (buf st)")
  let ?s = "st\<lparr>buf := b\<rparr>"
  show ?case
  proof (cases "numLeaves st = - 1")
    case True
    then have "addLeaf H h ?s = Inl IndexOutOfRange" using Cons.prems(1) by (intro addLeaf_full) simp_all
    then show ?thesis using pl by simp
  next
    case False
    from addLeaf_ok[of ?s H h] Cons.prems(1) False
    obtain st1 where s1: "addLeaf H h ?s = Inr st1" "length (trees st1) = 8"
      "numLeaves st1 = numLeaves st + 1" by auto
    have u: "unat (numLeaves st1) = Suc (unat (numLeaves st))"
      using False s1(3) u8_succ[of ?s] by simp
    have "addKeys H ks st1 = Inl IndexOutOfRange"
      using Cons.prems(2) u by (intro Cons.IH[OF s1(2)]) simp
    then show ?thesis using pl s1(1) by simp
  qed
qed

lemma TrailingZeros8_less: "x \<noteq> 0 \<Longrightarrow> TrailingZeros8 x < 8"
proof -
  assume x: "x \<noteq> 0"
  have "\<exists>j < 8. bit x j"
  proof (rule ccontr)
    assume "\<not> (\<exists>j < 8. bit x j)"
    then have "x = 0" by (intro bit_word_eqI) simp
    then show False using x by simp
  qed
  then obtain j where j: "j \<in> set [0..<8]" "\<not> \<not> bit x j" by auto
  have "takeWhile (\<lambda>i. \<not> bit x i) [0..<8] \<noteq> [0..<8]"
    using j unfolding takeWhile_eq_all_conv by blast
  then have "length (takeWhile (\<lambda>i. \<not> bit x i) [0..<8]) \<noteq> length [0..<8]"
    using takeWhile_eq_take[of "\<lambda>i. \<not> bit x i" "[0..<8]"] by auto
  then have "length (takeWhile (\<lambda>i. \<not> bit x i) [0..<8]) < length [0..<8]"
    using length_takeWhile_le[of "\<lambda>i. \<not> bit x i" "[0..<8]"] by linarith
  then show ?thesis using x by (simp add: TrailingZeros8_def)
qed

lemma treeRoot_ok:
  "length (trees st) = 8 \<Longrightarrow> numLeaves st \<noteq> 0 \<Longrightarrow> \<exists>r. treeRoot H st = Inr r"
  using TrailingZeros8_less[of "numLeaves st"] by (simp add: treeRoot_def Let_def)

lemma root_first_leaf:
  "\<exists>st1. addLeaf H h (initAccumulator\<lparr>buf := b\<rparr>) = Inr st1 \<and> length (trees st1) = 8 \<and>
     unat (numLeaves st1) = 1"
  using addLeaf_ok[of "initAccumulator\<lparr>buf := b\<rparr>" H h] by (auto simp: initAccumulator_def)

lemma root_cases:
  "(length ks \<le> 253 \<longrightarrow> (\<exists>r. root H t ks n = Inr r)) \<and>
   (254 \<le> length ks \<longrightarrow> root H t ks n = Inl IndexOutOfRange)"
proof -
  obtain h1 b1 where l1: "uint64Leaf H t (buf initAccumulator) = (h1, b1)"
    by (cases "uint64Leaf H t (buf initAccumulator)")
  from root_first_leaf[of H h1 b1]
  obtain st1 where s1: "addLeaf H h1 (initAccumulator\<lparr>buf := b1\<rparr>) = Inr st1"
    "length (trees st1) = 8" "unat (numLeaves st1) = 1" by auto
  show ?thesis
  proof (cases "length ks \<le> 254")
    case False
    then have "addKeys H ks st1 = Inl IndexOutOfRange"
      using s1(2,3) by (intro addKeys_full) simp_all
    then show ?thesis using False l1 s1(1) by (simp add: root_def)
  next
    case True
    from addKeys_ok[OF s1(2), of ks H] True s1(3)
    obtain st2 where s2: "addKeys H ks st1 = Inr st2" "length (trees st2) = 8"
      "unat (numLeaves st2) = 1 + length ks" by auto
    obtain h3 b3 where l3: "uint64Leaf H (ucast n) (buf st2) = (h3, b3)"
      by (cases "uint64Leaf H (ucast n) (buf st2)")
    let ?s = "st2\<lparr>buf := b3\<rparr>"
    show ?thesis
    proof (cases "length ks = 254")
      case True
      then have "numLeaves ?s = - 1" using s2(3) by (simp add: u8_max_unat)
      then have "addLeaf H h3 ?s = Inl IndexOutOfRange"
        using s2(2) by (intro addLeaf_full) simp_all
      then show ?thesis using True l1 s1(1) s2(1) l3 by (simp add: root_def)
    next
      case False
      then have k: "length ks \<le> 253" using True by simp
      then have ne: "numLeaves ?s \<noteq> - 1" using s2(3) by (simp add: u8_max_unat)
      from addLeaf_ok[of ?s H h3] s2(2) ne
      obtain st3 where s3: "addLeaf H h3 ?s = Inr st3" "length (trees st3) = 8"
        "numLeaves st3 = numLeaves st2 + 1" by auto
      have "unat (numLeaves st3) = Suc (unat (numLeaves st2))"
        using ne s3(3) u8_succ[of ?s] by simp
      then have "numLeaves st3 \<noteq> 0" by (metis Zero_not_Suc unsigned_0)
      from treeRoot_ok[OF s3(2) this, of H]
      obtain r where "treeRoot H st3 = Inr r" by auto
      then show ?thesis using k l1 s1(1) s2(1) l3 s3(1) by (simp add: root_def)
    qed
  qed
qed

lemma hexBytes_zeros: "hexBytes (replicate (2 * n) CHR ''0'') = replicate n 0"
  by (induction n) (simp_all add: fromHexChar_def)

text \<open>
  C3 does not hold of the code. The leaf counter is a \<open>uint8\<close> and there are eight slots.
  When the counter is 255, every bit of it is set: the loop of \<open>addLeaf\<close> combines through
  slot 7 and stops at \<open>i = 8\<close>, where \<open>1<<i\<close> is 0, and \<open>trees[8] = h\<close> is out of range.
  The 256th leaf is the required-signature count when there are 254 public keys, and a
  key when there are more. So \<open>Address\<close> on an \<open>UnlockConditions\<close> policy returns for at
  most 253 public keys and fails with the index-out-of-range panic for 254 or more.
\<close>

theorem Address_uc_panics_from_254_keys:
  "(length ks \<le> 253 \<longrightarrow> (\<exists>a. Address H ops h0 (PolicyTypeUnlockConditions t ks n) = Inr a)) \<and>
   (254 \<le> length ks \<longrightarrow> Address H ops h0 (PolicyTypeUnlockConditions t ks n) = Inl IndexOutOfRange)"
  using root_cases[of ks H t n] by simp

theorem Address_uc_panics_from_254_keys_witness:
  "ParseSpendPolicy (render (TextUc ''0'' (replicate 254 (replicate 64 CHR ''0'')) ''0'')) =
     (PolicyTypeUnlockConditions 0 (replicate 254 (replicate 32 0)) 0, None) \<and>
   Address (\<lambda>bs. replicate 32 0)
     \<lparr>Reset = (\<lambda>h :: unit. h), WriteString = (\<lambda>s h. h), EncodeTo = (\<lambda>p h. h),
      Sum = (\<lambda>h. replicate 32 0)\<rparr> ()
     (PolicyTypeUnlockConditions 0 (replicate 254 (replicate 32 0)) 0) = Inl IndexOutOfRange \<and>
   (\<exists>a. Address (\<lambda>bs. replicate 32 0)
     \<lparr>Reset = (\<lambda>h :: unit. h), WriteString = (\<lambda>s h. h), EncodeTo = (\<lambda>p h. h),
      Sum = (\<lambda>h. replicate 32 0)\<rparr> ()
     (PolicyTypeUnlockConditions 0 (replicate 253 (replicate 32 0)) 0) = Inr a)"
proof -
  let ?t = "TextUc ''0'' (replicate 254 (replicate 64 CHR ''0'')) ''0''"
  have h: "hexBytes (replicate 64 CHR ''0'') = replicate 32 0"
    using hexBytes_zeros[of 32] by simp
  have v: "valid_text ?t"
    by (simp add: numTok_def keyTok_def isDigit_def isHex_def fromHexChar_def decval_def
        digitVal_def list_all_iff)
  have p: "policy_of ?t = PolicyTypeUnlockConditions 0 (replicate 254 (replicate 32 0)) 0"
    by (simp add: h decval_def digitVal_def)
  have 1: "ParseSpendPolicy (render ?t) =
     (PolicyTypeUnlockConditions 0 (replicate 254 (replicate 32 0)) 0, None)"
    using parse_render_top[OF v] unfolding p .
  note th = Address_uc_panics_from_254_keys[of _ "\<lambda>bs. replicate 32 0"
     "\<lparr>Reset = (\<lambda>h :: unit. h), WriteString = (\<lambda>s h. h), EncodeTo = (\<lambda>p h. h),
      Sum = (\<lambda>h. replicate 32 0)\<rparr>" "()" 0 0]
  have 2: "Address (\<lambda>bs. replicate 32 0)
     \<lparr>Reset = (\<lambda>h :: unit. h), WriteString = (\<lambda>s h. h), EncodeTo = (\<lambda>p h. h),
      Sum = (\<lambda>h. replicate 32 0)\<rparr> ()
     (PolicyTypeUnlockConditions 0 (replicate 254 (replicate 32 0)) 0) = Inl IndexOutOfRange"
    using th[of "replicate 254 (replicate 32 0)"] by simp
  have 3: "\<exists>a. Address (\<lambda>bs. replicate 32 0)
     \<lparr>Reset = (\<lambda>h :: unit. h), WriteString = (\<lambda>s h. h), EncodeTo = (\<lambda>p h. h),
      Sum = (\<lambda>h. replicate 32 0)\<rparr> ()
     (PolicyTypeUnlockConditions 0 (replicate 253 (replicate 32 0)) 0) = Inr a"
    using th[of "replicate 253 (replicate 32 0)"] by simp
  show ?thesis by (rule conjI[OF 1 conjI[OF 2 3]])
qed

end
